theory Spec2Isabelle
  imports Main
begin

section \<open>Data model (types.ts)\<close>

text \<open>
  \<^verbatim>\<open>TaskStatus = "queued" | "running" | "completed" | "error"\<close>.
\<close>

datatype TaskStatus = Queued | Running | Completed | Error

text \<open>
  The \<^verbatim>\<open>Task\<close> interface. The field \<^verbatim>\<open>id\<close> is called \<open>task_id\<close> here (\<open>id\<close> is the
  identity function of HOL). \<^verbatim>\<open>agent\<close> is declared as \<^verbatim>\<open>"claude" | "codex"\<close>, but the
  value comes unchecked out of \<^verbatim>\<open>JSON.parse\<close> (main.ts) and \<^verbatim>\<open>buildCommand\<close> has a
  \<^verbatim>\<open>default\<close> branch for any other string, so the field is the string the program
  holds at run time. Optional fields are options; numbers are integers.
\<close>

record Task =
  task_id :: string
  folderPath :: string
  agent :: string
  prompt :: string
  originalPrompt :: "string option"
  status :: TaskStatus
  terminalOutput :: "string list"
  exitCode :: "int option"
  createdAt :: int
  startedAt :: "int option"
  completedAt :: "int option"

text \<open>
  A \<^verbatim>\<open>Partial<Task>\<close> object literal is the list of its \<^verbatim>\<open>key: value\<close> entries, in the
  order written; \<^verbatim>\<open>Object.assign(task, updates)\<close> stores them one after the other.
\<close>

datatype TaskUpdate =
    SetId string
  | SetFolderPath string
  | SetAgent string
  | SetPrompt string
  | SetOriginalPrompt string
  | SetStatus TaskStatus
  | SetTerminalOutput "string list"
  | SetExitCode int
  | SetCreatedAt int
  | SetStartedAt int
  | SetCompletedAt int

fun assign_field :: "Task \<Rightarrow> TaskUpdate \<Rightarrow> Task" where
  "assign_field t (SetId v) = t\<lparr>task_id := v\<rparr>"
| "assign_field t (SetFolderPath v) = t\<lparr>folderPath := v\<rparr>"
| "assign_field t (SetAgent v) = t\<lparr>agent := v\<rparr>"
| "assign_field t (SetPrompt v) = t\<lparr>prompt := v\<rparr>"
| "assign_field t (SetOriginalPrompt v) = t\<lparr>originalPrompt := Some v\<rparr>"
| "assign_field t (SetStatus v) = t\<lparr>status := v\<rparr>"
| "assign_field t (SetTerminalOutput v) = t\<lparr>terminalOutput := v\<rparr>"
| "assign_field t (SetExitCode v) = t\<lparr>exitCode := Some v\<rparr>"
| "assign_field t (SetCreatedAt v) = t\<lparr>createdAt := v\<rparr>"
| "assign_field t (SetStartedAt v) = t\<lparr>startedAt := Some v\<rparr>"
| "assign_field t (SetCompletedAt v) = t\<lparr>completedAt := Some v\<rparr>"

definition object_assign :: "Task \<Rightarrow> TaskUpdate list \<Rightarrow> Task" where
  "object_assign t updates = foldl assign_field t updates"

section \<open>Program state\<close>

text \<open>
  Task objects are shared: the registry \<^verbatim>\<open>tasks\<close> holds references, and a call of
  \<^verbatim>\<open>executeTask\<close> keeps the reference it was given while it waits for its process, also
  after the task has been removed from the registry. The state therefore has a store of
  task objects, \<open>heap\<close>, addressed by natural numbers; \<open>nextRef\<close> is the next address an
  object literal gets.

  \<^item> \<open>tasks\<close>, \<open>taskOrder\<close>, \<open>folderLocks\<close>: the module variables of queue.ts. The maps are
    never iterated, so a partial function is all of a \<^verbatim>\<open>Map\<close> that the program observes.
  \<^item> \<open>runningProcesses\<close>: the module variable of executor.ts, from task id to the handle of
    the spawned process.
  \<^item> \<open>killed\<close>: the handles on which \<^verbatim>\<open>proc.kill()\<close> has been called.
  \<^item> \<open>awaiting\<close>: the task objects of the calls of \<^verbatim>\<open>executeTask\<close> that are suspended at
    an \<^verbatim>\<open>await\<close> (draining the streams or waiting for the exit code). This is the part
    of the event loop the model needs: each entry resumes once, at the exit of its process.
\<close>

record state =
  heap :: "nat \<Rightarrow> Task"
  nextRef :: nat
  tasks :: "string \<rightharpoonup> nat"
  taskOrder :: "string list"
  folderLocks :: "string \<rightharpoonup> string"
  runningProcesses :: "string \<rightharpoonup> nat"
  killed :: "nat list"
  awaiting :: "nat list"

definition init_state :: state where
  "init_state =
     \<lparr>heap = (\<lambda>_. \<lparr>task_id = [], folderPath = [], agent = [], prompt = [],
                     originalPrompt = None, status = Queued, terminalOutput = [],
                     exitCode = None, createdAt = 0, startedAt = None, completedAt = None\<rparr>),
      nextRef = 0, tasks = Map.empty, taskOrder = [], folderLocks = Map.empty,
      runningProcesses = Map.empty, killed = [], awaiting = []\<rparr>"

section \<open>The task registry and the folder locks (queue.ts)\<close>

text \<open>\<^verbatim>\<open>p.replace(/\/+$/, "")\<close>: the run of slashes at the end of the path is dropped.\<close>

definition normalizePath :: "string \<Rightarrow> string" where
  "normalizePath p = rev (dropWhile (\<lambda>c. c = CHR ''/'') (rev p))"

text \<open>
  \<^verbatim>\<open>createTask\<close>. The results of \<^verbatim>\<open>crypto.randomUUID()\<close> and \<^verbatim>\<open>Date.now()\<close> are the
  arguments \<open>uuid\<close> and \<open>now\<close>. Returns the new state and the reference of the new task.
\<close>

definition createTask ::
  "state \<Rightarrow> string \<Rightarrow> string \<Rightarrow> string \<Rightarrow> string option \<Rightarrow> string \<Rightarrow> int \<Rightarrow> state \<times> nat" where
  "createTask s folder ag pr orig uuid now =
     (let r = nextRef s;
          task = \<lparr>task_id = uuid, folderPath = normalizePath folder, agent = ag, prompt = pr,
                  originalPrompt = orig, status = Queued, terminalOutput = [],
                  exitCode = None, createdAt = now, startedAt = None, completedAt = None\<rparr>
      in (s\<lparr>heap := (heap s)(r := task), nextRef := Suc r,
             tasks := (tasks s)(task_id task \<mapsto> r),
             taskOrder := taskOrder s @ [task_id task]\<rparr>, r))"

definition getTask :: "state \<Rightarrow> string \<Rightarrow> nat option" where
  "getTask s taskId = tasks s taskId"

text \<open>\<^verbatim>\<open>taskOrder.map((id) => tasks.get(id)!).filter(Boolean)\<close>\<close>

definition getAllTasks :: "state \<Rightarrow> nat list" where
  "getAllTasks s = List.map_filter (tasks s) (taskOrder s)"

definition updateTask :: "state \<Rightarrow> string \<Rightarrow> TaskUpdate list \<Rightarrow> state \<times> nat option" where
  "updateTask s taskId updates =
     (case tasks s taskId of
        None \<Rightarrow> (s, None)
      | Some r \<Rightarrow> (s\<lparr>heap := (heap s)(r := object_assign (heap s r) updates)\<rparr>, Some r))"

text \<open>\<^verbatim>\<open>Array.prototype.indexOf\<close>: the first position of the element, or \<open>-1\<close>.\<close>

fun indexOf :: "'a list \<Rightarrow> 'a \<Rightarrow> int" where
  "indexOf [] x = -1"
| "indexOf (y # ys) x =
     (if y = x then 0 else (let i = indexOf ys x in if i = -1 then -1 else i + 1))"

text \<open>\<^verbatim>\<open>xs.splice(index, 1)\<close> for an index inside the array.\<close>

definition splice1 :: "'a list \<Rightarrow> nat \<Rightarrow> 'a list" where
  "splice1 xs i = take i xs @ drop (Suc i) xs"

definition removeTask :: "state \<Rightarrow> string \<Rightarrow> state \<times> bool" where
  "removeTask s taskId =
     (case tasks s taskId of
        None \<Rightarrow> (s, False)
      | Some r \<Rightarrow>
          (let task = heap s r;
               s1 = (if folderLocks s (folderPath task) = Some taskId
                     then s\<lparr>folderLocks := (folderLocks s)(folderPath task := None)\<rparr>
                     else s);
               s2 = s1\<lparr>tasks := (tasks s1)(taskId := None)\<rparr>;
               index = indexOf (taskOrder s2) taskId;
               s3 = (if index > -1
                     then s2\<lparr>taskOrder := splice1 (taskOrder s2) (nat index)\<rparr>
                     else s2)
           in (s3, True)))"

text \<open>The parameter type \<^verbatim>\<open>"up" | "down"\<close> of \<^verbatim>\<open>reorderTask\<close>.\<close>

datatype direction = Up | Down

text \<open>
  \<^verbatim>\<open>reorderTask\<close>. The destructuring assignment reads both elements before it writes
  either, so the two writes use the old values.
\<close>

definition reorderTask :: "state \<Rightarrow> string \<Rightarrow> direction \<Rightarrow> state \<times> bool" where
  "reorderTask s taskId dir =
     (let index = indexOf (taskOrder s) taskId in
      if index = -1 then (s, False)
      else
        (let newIndex = (if dir = Up then index - 1 else index + 1) in
         if newIndex < 0 \<or> newIndex \<ge> int (length (taskOrder s)) then (s, False)
         else
           (let a = taskOrder s ! nat index; b = taskOrder s ! nat newIndex
            in (s\<lparr>taskOrder := (taskOrder s)[nat index := b, nat newIndex := a]\<rparr>, True))))"

definition getTaskOrder :: "state \<Rightarrow> string list" where
  "getTaskOrder s = taskOrder s"

text \<open>
  \<^verbatim>\<open>canStartTask\<close>: \<^verbatim>\<open>!lockHolder || lockHolder === task.id\<close>. A task object is passed by
  reference; the function reads its fields from the store. \<^verbatim>\<open>!lockHolder\<close> holds for
  \<^verbatim>\<open>undefined\<close> (no entry) and for the empty string.
\<close>

definition canStartTask :: "state \<Rightarrow> nat \<Rightarrow> bool" where
  "canStartTask s r =
     (let task = heap s r in
      case folderLocks s (folderPath task) of
        None \<Rightarrow> True
      | Some lockHolder \<Rightarrow> lockHolder = [] \<or> lockHolder = task_id task)"

definition acquireFolderLock :: "state \<Rightarrow> nat \<Rightarrow> state \<times> bool" where
  "acquireFolderLock s r =
     (if \<not> canStartTask s r then (s, False)
      else (let task = heap s r
            in (s\<lparr>folderLocks := (folderLocks s)(folderPath task \<mapsto> task_id task)\<rparr>, True)))"

definition releaseFolderLock :: "state \<Rightarrow> nat \<Rightarrow> state" where
  "releaseFolderLock s r =
     (let task = heap s r in
      if folderLocks s (folderPath task) = Some (task_id task)
      then s\<lparr>folderLocks := (folderLocks s)(folderPath task := None)\<rparr>
      else s)"

fun getNextRunnableTask_loop :: "state \<Rightarrow> string list \<Rightarrow> nat option" where
  "getNextRunnableTask_loop s [] = None"
| "getNextRunnableTask_loop s (taskId # rest) =
     (case tasks s taskId of
        None \<Rightarrow> getNextRunnableTask_loop s rest
      | Some r \<Rightarrow>
          if status (heap s r) = Queued \<and> canStartTask s r then Some r
          else getNextRunnableTask_loop s rest)"

definition getNextRunnableTask :: "state \<Rightarrow> nat option" where
  "getNextRunnableTask s = getNextRunnableTask_loop s (taskOrder s)"

text \<open>
  \<^verbatim>\<open>getNextRunnableTasks\<close>: the loop over \<^verbatim>\<open>taskOrder\<close>, with the array \<^verbatim>\<open>runnable\<close> and
  the set \<^verbatim>\<open>foldersToStart\<close> as accumulators.
\<close>

fun getNextRunnableTasks_loop ::
  "state \<Rightarrow> string list \<Rightarrow> nat list \<Rightarrow> string set \<Rightarrow> nat list" where
  "getNextRunnableTasks_loop s [] runnable foldersToStart = runnable"
| "getNextRunnableTasks_loop s (taskId # rest) runnable foldersToStart =
     (case tasks s taskId of
        None \<Rightarrow> getNextRunnableTasks_loop s rest runnable foldersToStart
      | Some r \<Rightarrow>
          if status (heap s r) \<noteq> Queued
          then getNextRunnableTasks_loop s rest runnable foldersToStart
          else if \<not> canStartTask s r \<or> folderPath (heap s r) \<in> foldersToStart
          then getNextRunnableTasks_loop s rest runnable foldersToStart
          else getNextRunnableTasks_loop s rest (runnable @ [r])
                 (insert (folderPath (heap s r)) foldersToStart))"

definition getNextRunnableTasks :: "state \<Rightarrow> nat list" where
  "getNextRunnableTasks s = getNextRunnableTasks_loop s (taskOrder s) [] {}"

section \<open>The execution engine (executor.ts)\<close>

text \<open>A thrown \<^verbatim>\<open>Error\<close> with its message.\<close>

datatype exn = JsError string

text \<open>
  \<^verbatim>\<open>buildCommand\<close>. \<^verbatim>\<open>process.cwd()\<close> is the argument \<open>process_cwd\<close>. The \<^verbatim>\<open>default\<close>
  branch throws.
\<close>

definition buildCommand :: "Task \<Rightarrow> string \<Rightarrow> exn + (string list \<times> string)" where
  "buildCommand task process_cwd =
     (if agent task = ''claude'' then Inr ([''claude'', ''-p'', prompt task], folderPath task)
      else if agent task = ''codex''
      then Inr ([''codex'', ''exec'', ''-C'', folderPath task, prompt task], process_cwd)
      else Inl (JsError (''Unknown agent: '' @ agent task)))"

text \<open>
  \<^verbatim>\<open>Bun.spawn\<close> either returns the handle of the new process or throws (missing binary,
  permission denied, invalid working directory). What it does is the environment's choice:
  the environment of a call is the working directory of the server and the answer of
  \<^verbatim>\<open>Bun.spawn\<close> to a command and a directory.
\<close>

datatype spawn_result = Spawned nat | SpawnError exn

record env =
  process_cwd :: string
  bun_spawn :: "string list \<Rightarrow> string \<Rightarrow> spawn_result"

text \<open>\<^verbatim>\<open>task.terminalOutput.push(output)\<close>: a write to the task object itself.\<close>

definition pushOutput :: "state \<Rightarrow> nat \<Rightarrow> string \<Rightarrow> state" where
  "pushOutput s r output =
     s\<lparr>heap := (heap s)(r := (heap s r)\<lparr>terminalOutput := terminalOutput (heap s r) @ [output]\<rparr>)\<rparr>"

text \<open>
  The \<^verbatim>\<open>catch\<close> block of \<^verbatim>\<open>executeTask\<close> (lines 130 to 145). The callbacks \<^verbatim>\<open>onOutput\<close>
  and \<^verbatim>\<open>onComplete\<close> notify the observers and ask for a later scheduler pass; they do not
  touch the state of this model. The call of \<^verbatim>\<open>executeTask\<close> ends here.
\<close>

definition executeTask_catch :: "state \<Rightarrow> nat \<Rightarrow> exn \<Rightarrow> int \<Rightarrow> state" where
  "executeTask_catch s r error now =
     (let s1 = s\<lparr>runningProcesses := (runningProcesses s)(task_id (heap s r) := None)\<rparr>;
          s2 = releaseFolderLock s1 r;
          errorMessage = (case error of JsError m \<Rightarrow> m);
          s3 = pushOutput s2 r (''[error] '' @ errorMessage);
          s4 = fst (updateTask s3 (task_id (heap s3 r))
                      [SetStatus Error, SetExitCode (- 1), SetCompletedAt now])
      in s4)"

text \<open>
  How a call of \<^verbatim>\<open>executeTask\<close> stands when it gives control back: its promise is
  rejected with an error, it is resolved, or the call is suspended at an \<^verbatim>\<open>await\<close>.
\<close>

datatype outcome = Rejected exn | Resolved | Pending

text \<open>
  \<^verbatim>\<open>executeTask\<close> from its entry to its first \<^verbatim>\<open>await\<close> (lines 39 to 68); nothing else
  runs in between. \<open>now\<close> is \<^verbatim>\<open>Date.now()\<close> at line 47 and \<open>now'\<close> at line 141.
  \<^verbatim>\<open>buildCommand\<close> is called at line 50, before the \<^verbatim>\<open>try\<close> of line 52: what it throws
  leaves \<^verbatim>\<open>executeTask\<close> without passing through the \<^verbatim>\<open>catch\<close> block.
\<close>

definition executeTask :: "state \<Rightarrow> nat \<Rightarrow> env \<Rightarrow> int \<Rightarrow> int \<Rightarrow> state \<times> outcome" where
  "executeTask s r e now now' =
     (case acquireFolderLock s r of
        (s1, False) \<Rightarrow>
          (s1, Rejected (JsError (''Folder '' @ folderPath (heap s1 r)
                                   @ '' is locked by another task'')))
      | (s1, True) \<Rightarrow>
          (let s2 = fst (updateTask s1 (task_id (heap s1 r))
                           [SetStatus Running, SetStartedAt now])
           in case buildCommand (heap s2 r) (process_cwd e) of
                Inl err \<Rightarrow> (s2, Rejected err)
              | Inr (cmd, cwd) \<Rightarrow>
                  (case bun_spawn e cmd cwd of
                     SpawnError err \<Rightarrow> (executeTask_catch s2 r err now', Resolved)
                   | Spawned proc \<Rightarrow>
                       (s2\<lparr>runningProcesses :=
                             (runningProcesses s2)(task_id (heap s2 r) \<mapsto> proc),
                           awaiting := awaiting s2 @ [r]\<rparr>, Pending))))"

text \<open>
  \<^verbatim>\<open>String.prototype.split("\n")\<close>: the segments between the newlines; one more segment
  than there are newlines, so never an empty array.
\<close>

fun split_nl :: "string \<Rightarrow> string list" where
  "split_nl [] = [[]]"
| "split_nl (c # cs) =
     (if c = CHR 0x0A then [] # split_nl cs
      else (case split_nl cs of [] \<Rightarrow> [[c]] | l # ls \<Rightarrow> (c # l) # ls))"

text \<open>\<^verbatim>\<open>lines.pop() || ""\<close>: the last element, or the empty string for an empty array.\<close>

definition pop_or_empty :: "string list \<Rightarrow> string" where
  "pop_or_empty ls = (if ls = [] then [] else last ls)"

text \<open>
  The platform's \<^verbatim>\<open>TextDecoder\<close> (UTF-8, replacement on error), as the Encoding Standard
  defines it for \<^verbatim>\<open>decode(value, { stream: true })\<close>: the decoder keeps the bytes of a
  sequence that a chunk leaves incomplete and goes on with them at the next call. Bytes
  are characters here, and a string of the program is written as its UTF-8 bytes, so the
  code point U+FFFD is the three bytes of \<open>replacement\<close> and a line feed is the byte 0x0A.

  \<^item> \<open>pending\<close>: the bytes of the sequence begun (the standard's code point and bytes seen);
  \<^item> \<open>bytes_needed\<close>: the continuation bytes that sequence has in all, 0 between sequences;
  \<^item> \<open>lower_boundary\<close>, \<open>upper_boundary\<close>: the range allowed for the next continuation byte;
  \<^item> \<open>bom_seen\<close>: a code point has left the decoder; a byte order mark is dropped when it
    is the first one.
\<close>

record text_decoder =
  pending :: string
  bytes_needed :: nat
  lower_boundary :: nat
  upper_boundary :: nat
  bom_seen :: bool

definition new_TextDecoder :: text_decoder where
  "new_TextDecoder =
     \<lparr>pending = [], bytes_needed = 0, lower_boundary = 0x80, upper_boundary = 0xBF,
      bom_seen = False\<rparr>"

definition replacement :: string where
  "replacement = [CHR 0xEF, CHR 0xBF, CHR 0xBD]"

definition byte_order_mark :: string where
  "byte_order_mark = [CHR 0xEF, CHR 0xBB, CHR 0xBF]"

text \<open>A code point leaves the decoder.\<close>

definition emit :: "text_decoder \<Rightarrow> string \<Rightarrow> text_decoder \<times> string" where
  "emit d cp =
     (d\<lparr>bom_seen := True\<rparr>, if \<not> bom_seen d \<and> cp = byte_order_mark then [] else cp)"

definition between_sequences :: "text_decoder \<Rightarrow> text_decoder" where
  "between_sequences d =
     d\<lparr>pending := [], bytes_needed := 0, lower_boundary := 0x80, upper_boundary := 0xBF\<rparr>"

text \<open>A byte that arrives between two sequences.\<close>

definition lead_byte :: "text_decoder \<Rightarrow> char \<Rightarrow> text_decoder \<times> string" where
  "lead_byte d b =
     (let n = (of_char b :: nat) in
      if n \<le> 0x7F then emit d [b]
      else if 0xC2 \<le> n \<and> n \<le> 0xDF then (d\<lparr>pending := [b], bytes_needed := 1\<rparr>, [])
      else if 0xE0 \<le> n \<and> n \<le> 0xEF
      then (d\<lparr>pending := [b], bytes_needed := 2,
               lower_boundary := (if n = 0xE0 then 0xA0 else 0x80),
               upper_boundary := (if n = 0xED then 0x9F else 0xBF)\<rparr>, [])
      else if 0xF0 \<le> n \<and> n \<le> 0xF4
      then (d\<lparr>pending := [b], bytes_needed := 3,
               lower_boundary := (if n = 0xF0 then 0x90 else 0x80),
               upper_boundary := (if n = 0xF4 then 0x8F else 0xBF)\<rparr>, [])
      else emit d replacement)"

text \<open>
  One byte. A byte outside the range allowed inside a sequence ends the sequence with
  U+FFFD and is then read again as a byte between sequences.
\<close>

definition decode_byte :: "text_decoder \<Rightarrow> char \<Rightarrow> text_decoder \<times> string" where
  "decode_byte d b =
     (if bytes_needed d = 0 then lead_byte d b
      else
        (let n = (of_char b :: nat) in
         if n < lower_boundary d \<or> upper_boundary d < n
         then (let (d1, out1) = emit (between_sequences d) replacement;
                   (d2, out2) = lead_byte d1 b
               in (d2, out1 @ out2))
         else
           (let d1 = d\<lparr>pending := pending d @ [b], lower_boundary := 0x80,
                        upper_boundary := 0xBF\<rparr>
            in if length (pending d1) = Suc (bytes_needed d1)
               then emit (between_sequences d1) (pending d1)
               else (d1, []))))"

text \<open>\<^verbatim>\<open>decoder.decode(value, { stream: true })\<close>: the new decoder and the text returned.\<close>

fun decode :: "text_decoder \<Rightarrow> string \<Rightarrow> text_decoder \<times> string" where
  "decode d [] = (d, [])"
| "decode d (b # bs) =
     (let (d1, out1) = decode_byte d b;
          (d2, out2) = decode d1 bs
      in (d2, out1 @ out2))"

text \<open>
  The two streams of a process, and the prefix of the lines of each
  (\<^verbatim>\<open>readStream(proc.stdout, "")\<close> and \<^verbatim>\<open>readStream(proc.stderr, "[stderr] ")\<close>).
\<close>

datatype stream = Stdout | Stderr

definition prefix_of :: "stream \<Rightarrow> string" where
  "prefix_of st = (case st of Stdout \<Rightarrow> [] | Stderr \<Rightarrow> ''[stderr] '')"

text \<open>
  What the two calls of \<^verbatim>\<open>readStream\<close> of one call of \<^verbatim>\<open>executeTask\<close> hold between their
  reads: the \<^verbatim>\<open>buffer\<close> of each call, and the one \<^verbatim>\<open>decoder\<close> of line 71 that both use.
\<close>

record readers =
  decoder :: text_decoder
  stdout_buffer :: string
  stderr_buffer :: string

definition buffer_of :: "readers \<Rightarrow> stream \<Rightarrow> string" where
  "buffer_of io st = (case st of Stdout \<Rightarrow> stdout_buffer io | Stderr \<Rightarrow> stderr_buffer io)"

definition set_buffer :: "readers \<Rightarrow> stream \<Rightarrow> string \<Rightarrow> readers" where
  "set_buffer io st buffer =
     (case st of Stdout \<Rightarrow> io\<lparr>stdout_buffer := buffer\<rparr>
               | Stderr \<Rightarrow> io\<lparr>stderr_buffer := buffer\<rparr>)"

text \<open>
  What \<^verbatim>\<open>await reader.read()\<close> gives: a chunk of bytes, \<^verbatim>\<open>done\<close>, or an exception.
\<close>

datatype read_result = Value string | DoneReading | ReadThrows

text \<open>
  \<^verbatim>\<open>readStream\<close> (lines 73 to 106) from one \<^verbatim>\<open>await reader.read()\<close> to the next, for the
  stream \<open>st\<close>. A chunk is decoded with the shared decoder, added to the buffer of the
  stream and split; the lines but the last are pushed and the last stays in the buffer.
  \<^verbatim>\<open>done\<close> leaves the loop and flushes the buffer; an exception goes to the empty
  \<^verbatim>\<open>catch\<close>, past the flush.
\<close>

definition readStream_read ::
  "state \<Rightarrow> nat \<Rightarrow> readers \<Rightarrow> stream \<Rightarrow> read_result \<Rightarrow> state \<times> readers" where
  "readStream_read s r io st res =
     (case res of
        Value v \<Rightarrow>
          (let (d, text) = decode (decoder io) v;
               buffer1 = buffer_of io st @ text;
               lines = split_nl buffer1;
               buffer2 = pop_or_empty lines;
               lines' = butlast lines;
               s' = foldl (\<lambda>s line. pushOutput s r (prefix_of st @ line)) s lines'
           in (s', set_buffer (io\<lparr>decoder := d\<rparr>) st buffer2))
      | DoneReading \<Rightarrow>
          (if buffer_of io st \<noteq> []
           then (pushOutput s r (prefix_of st @ buffer_of io st), io)
           else (s, io))
      | ReadThrows \<Rightarrow> (s, io))"

text \<open>
  \<^verbatim>\<open>Promise.all([readStream(proc.stdout, ""), readStream(proc.stderr, "[stderr] ")])\<close>
  (lines 109 to 112): the two calls run interleaved, a read of one stream at a time, in the
  order in which the reads are answered. Each stream has its chunks and then its end.
\<close>

fun readStreams_loop ::
  "state \<Rightarrow> nat \<Rightarrow> readers \<Rightarrow> (stream \<times> read_result) list \<Rightarrow> state \<times> readers" where
  "readStreams_loop s r io [] = (s, io)"
| "readStreams_loop s r io ((st, res) # rest) =
     (let (s', io') = readStream_read s r io st res in readStreams_loop s' r io' rest)"

definition readStreams :: "state \<Rightarrow> nat \<Rightarrow> (stream \<times> read_result) list \<Rightarrow> state" where
  "readStreams s r reads =
     fst (readStreams_loop s r
            \<lparr>decoder = new_TextDecoder, stdout_buffer = [], stderr_buffer = []\<rparr> reads)"

text \<open>
  \<^verbatim>\<open>executeTask\<close> after \<^verbatim>\<open>await proc.exited\<close> (lines 115 to 129): the rest of a suspended
  call, run when the process has exited with \<open>code\<close>.
\<close>

definition executeTask_exited :: "state \<Rightarrow> nat \<Rightarrow> int \<Rightarrow> int \<Rightarrow> state" where
  "executeTask_exited s r code now =
     (let s1 = s\<lparr>runningProcesses := (runningProcesses s)(task_id (heap s r) := None)\<rparr>;
          s2 = releaseFolderLock s1 r;
          st = (if code = 0 then Completed else Error);
          s3 = fst (updateTask s2 (task_id (heap s2 r))
                      [SetStatus st, SetExitCode code, SetCompletedAt now])
      in s3\<lparr>awaiting := remove1 r (awaiting s3)\<rparr>)"

text \<open>
  \<^verbatim>\<open>stopTask\<close>. \<^verbatim>\<open>running.kill()\<close> signals the process; the process exits later, and the
  suspended call of \<^verbatim>\<open>executeTask\<close> resumes then.
\<close>

definition stopTask :: "state \<Rightarrow> string \<Rightarrow> int \<Rightarrow> state \<times> bool" where
  "stopTask s taskId now =
     (case runningProcesses s taskId of
        None \<Rightarrow> (s, False)
      | Some proc \<Rightarrow>
          (let s1 = s\<lparr>killed := killed s @ [proc]\<rparr>;
               s2 = s1\<lparr>runningProcesses := (runningProcesses s1)(taskId := None)\<rparr>
           in case getTask s2 taskId of
                None \<Rightarrow> (s2, True)
              | Some r \<Rightarrow>
                  (let s3 = releaseFolderLock s2 r;
                       s4 = fst (updateTask s3 taskId
                                   [SetStatus Error, SetExitCode (- 9), SetCompletedAt now]);
                       s5 = pushOutput s4 r ''[system] Task stopped by user''
                   in (s5, True))))"

definition isTaskRunning :: "state \<Rightarrow> string \<Rightarrow> bool" where
  "isTaskRunning s taskId = (runningProcesses s taskId \<noteq> None)"

section \<open>Reachable states\<close>

text \<open>
  The states the program can be in: the requests of the control surface (create, remove,
  reorder, stop), the start of a task, the output and the exit of a started process, in
  any order and with any arguments.

  \<^item> \<^verbatim>\<open>crypto.randomUUID()\<close> returns a non-empty identifier that no task object has had.
  \<^item> \<^verbatim>\<open>executeTask\<close> is called by the scheduler pass of main.ts, on tasks that
    \<^verbatim>\<open>getNextRunnableTasks\<close> has just read from the registry; here it may be called on
    any task of the registry, whatever its status.
  \<^item> A suspended call of \<^verbatim>\<open>executeTask\<close> appends output lines to its task and resumes when
    its process exits, with any exit code.
\<close>

inductive reachable :: "state \<Rightarrow> bool" where
  r_init: "reachable init_state"
| r_create: "reachable s \<Longrightarrow> uuid \<noteq> [] \<Longrightarrow> \<forall>r < nextRef s. task_id (heap s r) \<noteq> uuid
     \<Longrightarrow> reachable (fst (createTask s folder ag pr orig uuid now))"
| r_remove: "reachable s \<Longrightarrow> reachable (fst (removeTask s taskId))"
| r_reorder: "reachable s \<Longrightarrow> reachable (fst (reorderTask s taskId dir))"
| r_execute: "reachable s \<Longrightarrow> tasks s (task_id (heap s r)) = Some r
     \<Longrightarrow> reachable (fst (executeTask s r e now now'))"
| r_output: "reachable s \<Longrightarrow> r \<in> set (awaiting s) \<Longrightarrow> reachable (pushOutput s r line)"
| r_exited: "reachable s \<Longrightarrow> r \<in> set (awaiting s)
     \<Longrightarrow> reachable (executeTask_exited s r code now)"
| r_stop: "reachable s \<Longrightarrow> reachable (fst (stopTask s taskId now))"

text \<open>
  The store is well formed: the registry maps an identifier to an allocated object with
  that identifier, allocated objects have distinct, non-empty identifiers, and suspended
  calls hold allocated objects.
\<close>

definition store_ok :: "state \<Rightarrow> bool" where
  "store_ok s \<longleftrightarrow>
     (\<forall>k r. tasks s k = Some r \<longrightarrow> r < nextRef s \<and> task_id (heap s r) = k) \<and>
     (\<forall>r r'. r < nextRef s \<longrightarrow> r' < nextRef s \<longrightarrow>
        task_id (heap s r) = task_id (heap s r') \<longrightarrow> r = r') \<and>
     (\<forall>r < nextRef s. task_id (heap s r) \<noteq> []) \<and>
     (\<forall>r \<in> set (awaiting s). r < nextRef s)"

text \<open>Every lock is held by a running task of that folder, and every running task holds
  the lock of its folder.\<close>

definition locks_ok :: "state \<Rightarrow> bool" where
  "locks_ok s \<longleftrightarrow>
     (\<forall>f h. folderLocks s f = Some h \<longrightarrow>
        (\<exists>r. tasks s h = Some r \<and> status (heap s r) = Running \<and> folderPath (heap s r) = f)) \<and>
     (\<forall>k r. tasks s k = Some r \<longrightarrow> status (heap s r) = Running \<longrightarrow>
        folderLocks s (folderPath (heap s r)) = Some k)"

text \<open>
  The folder exclusivity invariant of the specification, on the tasks of the registry:
  a folder has a lock entry iff a task of that folder is running; the holder named by an
  entry is a running task of that folder; two running tasks of one folder are the same task.
\<close>

definition folder_exclusive :: "state \<Rightarrow> bool" where
  "folder_exclusive s \<longleftrightarrow>
     (\<forall>f. (folderLocks s f \<noteq> None) =
        (\<exists>k r. tasks s k = Some r \<and> folderPath (heap s r) = f \<and> status (heap s r) = Running)) \<and>
     (\<forall>f h. folderLocks s f = Some h \<longrightarrow>
        (\<exists>r. tasks s h = Some r \<and> task_id (heap s r) = h \<and> folderPath (heap s r) = f
             \<and> status (heap s r) = Running)) \<and>
     (\<forall>k k' r r'. tasks s k = Some r \<longrightarrow> tasks s k' = Some r' \<longrightarrow>
        status (heap s r) = Running \<longrightarrow> status (heap s r') = Running \<longrightarrow>
        folderPath (heap s r) = folderPath (heap s r') \<longrightarrow> k = k')"

text \<open>The task order lists the identifiers of the registry, each once.\<close>

definition order_ok :: "state \<Rightarrow> bool" where
  "order_ok s \<longleftrightarrow> distinct (taskOrder s) \<and> set (taskOrder s) = dom (tasks s)"

text \<open>
  The state of \<^verbatim>\<open>executeTask\<close> after lines 40 to 48, when the lock could be taken: the
  lock is held and the task is set running.
\<close>

definition started :: "state \<Rightarrow> nat \<Rightarrow> int \<Rightarrow> state" where
  "started s r now =
     fst (updateTask (fst (acquireFolderLock s r)) (task_id (heap s r))
            [SetStatus Running, SetStartedAt now])"

section \<open>What a scheduler pass selects\<close>

text \<open>The queued tasks of the registry, in task order.\<close>

definition queued_refs :: "state \<Rightarrow> nat list" where
  "queued_refs s =
     List.map_filter
       (\<lambda>taskId. case tasks s taskId of
                    None \<Rightarrow> None
                  | Some r \<Rightarrow> if status (heap s r) = Queued then Some r else None)
       (taskOrder s)"

text \<open>The queued tasks that \<^verbatim>\<open>canStartTask\<close> lets through, in task order.\<close>

definition startable :: "state \<Rightarrow> nat list" where
  "startable s = filter (canStartTask s) (queued_refs s)"

text \<open>Of a list of tasks, those that no earlier task of the list shares the folder with.\<close>

definition first_per_folder :: "state \<Rightarrow> nat list \<Rightarrow> nat list" where
  "first_per_folder s xs =
     map ((!) xs)
       (filter (\<lambda>i. folderPath (heap s (xs ! i)) \<notin> (\<lambda>r. folderPath (heap s r)) ` set (take i xs))
          [0..<length xs])"

text \<open>The earliest-ordered queued task of a folder, and the earliest one that can start.\<close>

definition earliest_queued :: "state \<Rightarrow> string \<Rightarrow> nat option" where
  "earliest_queued s f = find (\<lambda>r. folderPath (heap s r) = f) (queued_refs s)"

definition earliest_startable :: "state \<Rightarrow> string \<Rightarrow> nat option" where
  "earliest_startable s f = find (\<lambda>r. folderPath (heap s r) = f) (startable s)"

text \<open>No queued task is recorded as the holder of the lock of its own folder.\<close>

definition no_queued_holder :: "state \<Rightarrow> bool" where
  "no_queued_holder s \<longleftrightarrow>
     (\<forall>r \<in> set (queued_refs s). folderLocks s (folderPath (heap s r)) \<noteq> Some (task_id (heap s r)))"

text \<open>
  The selection of \<^verbatim>\<open>getNextRunnableTasks\<close> on tasks that are queued and can start: a task
  is taken unless its folder is in \<open>folders\<close>, and then its folder is added.
\<close>

fun pick :: "state \<Rightarrow> nat list \<Rightarrow> string set \<Rightarrow> nat list" where
  "pick s [] folders = []"
| "pick s (r # rs) folders =
     (if folderPath (heap s r) \<in> folders then pick s rs folders
      else r # pick s rs (insert (folderPath (heap s r)) folders))"

definition startable_of :: "state \<Rightarrow> string list \<Rightarrow> nat list" where
  "startable_of s ids =
     filter (canStartTask s)
       (List.map_filter
          (\<lambda>taskId. case tasks s taskId of
                       None \<Rightarrow> None
                     | Some r \<Rightarrow> if status (heap s r) = Queued then Some r else None) ids)"

section \<open>The lines of a stream\<close>

text \<open>
  The lines of a text as the specification counts them: the segments between the newlines,
  without the segment after the last newline when that segment is empty.
\<close>

definition spec_lines :: "string \<Rightarrow> string list" where
  "spec_lines text =
     (let segments = split_nl text in if last segments = [] then butlast segments else segments)"

text \<open>Appending a list of lines to the log of a task, one \<^verbatim>\<open>push\<close> after the other.\<close>

definition push_all :: "state \<Rightarrow> nat \<Rightarrow> string list \<Rightarrow> state" where
  "push_all s r ls = foldl (\<lambda>s l. pushOutput s r l) s ls"

text \<open>The chunks of one stream among the reads, in order.\<close>

definition chunks_of :: "stream \<Rightarrow> (stream \<times> read_result) list \<Rightarrow> string list" where
  "chunks_of st reads =
     List.map_filter (\<lambda>(st', res). case res of Value v \<Rightarrow> if st' = st then Some v else None
                                    | _ \<Rightarrow> None) reads"

text \<open>The text of a sequence of chunks: the bytes of all chunks, decoded as one.\<close>

definition text_of :: "string list \<Rightarrow> string" where
  "text_of chunks = snd (decode new_TextDecoder (concat chunks))"

section \<open>Exchanging two positions of a list\<close>

text \<open>The list \<open>ys\<close> is \<open>xs\<close> with the elements at the positions \<open>i\<close> and \<open>j\<close> exchanged.\<close>

definition swapped :: "'a list \<Rightarrow> nat \<Rightarrow> nat \<Rightarrow> 'a list \<Rightarrow> bool" where
  "swapped xs i j ys \<longleftrightarrow>
     length ys = length xs \<and> ys ! i = xs ! j \<and> ys ! j = xs ! i \<and>
     (\<forall>n < length xs. n \<noteq> i \<and> n \<noteq> j \<longrightarrow> ys ! n = xs ! n)"

section \<open>A small run\<close>

text \<open>
  One task \<open>t1\<close> for the folder \<^verbatim>\<open>/p/\<close>, created at time 10 and started at time 20 in an
  environment where \<^verbatim>\<open>Bun.spawn\<close> succeeds; and an environment where it throws.
\<close>

definition env_spawns :: env where
  "env_spawns = \<lparr>process_cwd = ''/srv'', bun_spawn = (\<lambda>cmd cwd. Spawned 7)\<rparr>"

definition env_fails :: env where
  "env_fails = \<lparr>process_cwd = ''/srv'',
                 bun_spawn = (\<lambda>cmd cwd. SpawnError (JsError ''ENOENT: no such file or directory''))\<rparr>"

definition s_created :: state where
  "s_created = fst (createTask init_state ''/p/'' ''claude'' ''fix the tests'' None ''t1'' 10)"

definition s_running :: state where
  "s_running = fst (executeTask s_created 0 env_spawns 20 21)"

text \<open>The task \<open>t1\<close> of the run, stopped by the user at time 30.\<close>

definition s_stopped :: state where
  "s_stopped = fst (stopTask s_running ''t1'' 30)"

text \<open>
  Two queued tasks for the folder \<^verbatim>\<open>/p\<close>: \<open>t1\<close> names an agent that \<^verbatim>\<open>buildCommand\<close> does not
  know, \<open>t2\<close> waits behind it.
\<close>

definition s_two :: state where
  "s_two = fst (createTask (fst (createTask init_state ''/p'' ''gemini'' ''hello'' None ''t1'' 10))
                  ''/p'' ''claude'' ''later'' None ''t2'' 11)"

text \<open>Three queued tasks, \<open>a\<close> and \<open>b\<close> for the folder \<^verbatim>\<open>/p\<close> and \<open>c\<close> for \<^verbatim>\<open>/q\<close>.\<close>

definition s_three :: state where
  "s_three =
     fst (createTask (fst (createTask (fst (createTask init_state
       ''/p'' ''claude'' ''one'' None ''a'' 1)) ''/p'' ''codex'' ''two'' None ''b'' 2))
       ''/q'' ''claude'' ''three'' None ''c'' 3)"

text \<open>
  The three queued tasks, after \<^verbatim>\<open>acquireFolderLock\<close> has been called on \<open>b\<close>: the lock of
  \<^verbatim>\<open>/p\<close> names \<open>b\<close>, and \<open>b\<close> is still queued.
\<close>

definition s_held :: state where
  "s_held = fst (acquireFolderLock s_three 1)"

text \<open>
  The process of \<open>t1\<close> writes \<^verbatim>\<open>o\<close>, the two bytes of \<^verbatim>\<open>e\<close> with acute accent (0xC3 0xA9) and
  a line feed to standard output, and \<^verbatim>\<open>E\<close> and a line feed to standard error. The chunk of
  standard output ends between the two bytes of the accented letter. In \<open>reads_split\<close> the
  read of standard error is answered between the two reads of standard output, in
  \<open>reads_unsplit\<close> after them.
\<close>

definition reads_split :: "(stream \<times> read_result) list" where
  "reads_split =
     [(Stdout, Value [CHR ''o'', CHR 0xC3]),
      (Stderr, Value [CHR ''E'', CHR 0x0A]),
      (Stdout, Value [CHR 0xA9, CHR 0x0A]),
      (Stdout, DoneReading), (Stderr, DoneReading)]"

definition reads_unsplit :: "(stream \<times> read_result) list" where
  "reads_unsplit =
     [(Stdout, Value [CHR ''o'', CHR 0xC3]),
      (Stdout, Value [CHR 0xA9, CHR 0x0A]),
      (Stderr, Value [CHR ''E'', CHR 0x0A]),
      (Stdout, DoneReading), (Stderr, DoneReading)]"

section \<open>What each operation does to the fields of the state\<close>

lemma releaseFolderLock_fields:
  "heap (releaseFolderLock s r) = heap s"
  "nextRef (releaseFolderLock s r) = nextRef s"
  "awaiting (releaseFolderLock s r) = awaiting s"
  "runningProcesses (releaseFolderLock s r) = runningProcesses s"
  "tasks (releaseFolderLock s r) = tasks s"
  "taskOrder (releaseFolderLock s r) = taskOrder s"
  "killed (releaseFolderLock s r) = killed s"
  by (simp_all add: releaseFolderLock_def Let_def)

lemma releaseFolderLock_locks:
  "folderLocks (releaseFolderLock s r) f =
     (if f = folderPath (heap s r) \<and> folderLocks s f = Some (task_id (heap s r)) then None
      else folderLocks s f)"
  by (auto simp: releaseFolderLock_def Let_def)

lemma updateTask_fields:
  "nextRef (fst (updateTask s k ups)) = nextRef s"
  "awaiting (fst (updateTask s k ups)) = awaiting s"
  "runningProcesses (fst (updateTask s k ups)) = runningProcesses s"
  "tasks (fst (updateTask s k ups)) = tasks s"
  "taskOrder (fst (updateTask s k ups)) = taskOrder s"
  "folderLocks (fst (updateTask s k ups)) = folderLocks s"
  "killed (fst (updateTask s k ups)) = killed s"
  by (simp_all add: updateTask_def split: option.splits)

lemma updateTask_heap:
  "heap (fst (updateTask s k ups)) r' =
     (if tasks s k = Some r' then object_assign (heap s r') ups else heap s r')"
  by (auto simp: updateTask_def split: option.splits)

lemma assign_terminal [simp]:
  "task_id (object_assign t [SetStatus st, SetExitCode c, SetCompletedAt n]) = task_id t"
  "folderPath (object_assign t [SetStatus st, SetExitCode c, SetCompletedAt n]) = folderPath t"
  "agent (object_assign t [SetStatus st, SetExitCode c, SetCompletedAt n]) = agent t"
  "prompt (object_assign t [SetStatus st, SetExitCode c, SetCompletedAt n]) = prompt t"
  "terminalOutput (object_assign t [SetStatus st, SetExitCode c, SetCompletedAt n]) = terminalOutput t"
  "startedAt (object_assign t [SetStatus st, SetExitCode c, SetCompletedAt n]) = startedAt t"
  "status (object_assign t [SetStatus st, SetExitCode c, SetCompletedAt n]) = st"
  "exitCode (object_assign t [SetStatus st, SetExitCode c, SetCompletedAt n]) = Some c"
  "completedAt (object_assign t [SetStatus st, SetExitCode c, SetCompletedAt n]) = Some n"
  by (simp_all add: object_assign_def)

lemma assign_running [simp]:
  "task_id (object_assign t [SetStatus st, SetStartedAt n]) = task_id t"
  "folderPath (object_assign t [SetStatus st, SetStartedAt n]) = folderPath t"
  "agent (object_assign t [SetStatus st, SetStartedAt n]) = agent t"
  "prompt (object_assign t [SetStatus st, SetStartedAt n]) = prompt t"
  "terminalOutput (object_assign t [SetStatus st, SetStartedAt n]) = terminalOutput t"
  "exitCode (object_assign t [SetStatus st, SetStartedAt n]) = exitCode t"
  "completedAt (object_assign t [SetStatus st, SetStartedAt n]) = completedAt t"
  "status (object_assign t [SetStatus st, SetStartedAt n]) = st"
  "startedAt (object_assign t [SetStatus st, SetStartedAt n]) = Some n"
  by (simp_all add: object_assign_def)

section \<open>The operations keep the store well formed and the locks with the running tasks\<close>

lemma inv_init: "store_ok init_state \<and> locks_ok init_state"
  by (simp add: store_ok_def locks_ok_def init_state_def)

lemma store_create:
  assumes "store_ok s" "uuid \<noteq> []" "\<forall>r < nextRef s. task_id (heap s r) \<noteq> uuid"
  shows "store_ok (fst (createTask s folder ag pr orig uuid now))"
  using assms unfolding store_ok_def createTask_def Let_def
  by (auto simp: less_Suc_eq)

lemma locks_create:
  assumes "store_ok s" "locks_ok s" "uuid \<noteq> []" "\<forall>r < nextRef s. task_id (heap s r) \<noteq> uuid"
  shows "locks_ok (fst (createTask s folder ag pr orig uuid now))"
  using assms unfolding store_ok_def locks_ok_def createTask_def Let_def
  apply (auto simp: less_Suc_eq)
   apply blast
  apply (metis less_irrefl)
  done

lemma removeTask_fields:
  "heap (fst (removeTask s k)) = heap s"
  "nextRef (fst (removeTask s k)) = nextRef s"
  "awaiting (fst (removeTask s k)) = awaiting s"
  "runningProcesses (fst (removeTask s k)) = runningProcesses s"
  "tasks (fst (removeTask s k)) = (tasks s)(k := None)"
  by (auto simp: removeTask_def Let_def split: option.splits)

lemma removeTask_locks:
  "folderLocks (fst (removeTask s k)) f =
     (case tasks s k of None \<Rightarrow> folderLocks s f
      | Some r \<Rightarrow> if f = folderPath (heap s r) \<and> folderLocks s f = Some k then None
                  else folderLocks s f)"
  by (auto simp: removeTask_def Let_def split: option.splits)

lemma store_remove: "store_ok s \<Longrightarrow> store_ok (fst (removeTask s k))"
  unfolding store_ok_def by (simp add: removeTask_fields)

lemma locks_remove:
  assumes "store_ok s" "locks_ok s" shows "locks_ok (fst (removeTask s k))"
  unfolding locks_ok_def
proof (intro conjI allI impI)
  fix f h assume a: "folderLocks (fst (removeTask s k)) f = Some h"
  then have l: "folderLocks s f = Some h"
    by (auto simp: removeTask_locks split: option.splits if_splits)
  with assms(2) obtain r where r: "tasks s h = Some r" "status (heap s r) = Running"
      "folderPath (heap s r) = f"
    unfolding locks_ok_def by blast
  have "h \<noteq> k" using a l r by (auto simp: removeTask_locks)
  then show "\<exists>r. tasks (fst (removeTask s k)) h = Some r \<and>
      status (heap (fst (removeTask s k)) r) = Running \<and>
      folderPath (heap (fst (removeTask s k)) r) = f"
    using r by (simp add: removeTask_fields)
next
  fix k' r' assume a: "tasks (fst (removeTask s k)) k' = Some r'"
     "status (heap (fst (removeTask s k)) r') = Running"
  then have k: "k' \<noteq> k" "tasks s k' = Some r'" "status (heap s r') = Running"
    by (auto simp: removeTask_fields split: if_splits)
  with assms(2) have "folderLocks s (folderPath (heap s r')) = Some k'"
    unfolding locks_ok_def by blast
  then show "folderLocks (fst (removeTask s k)) (folderPath (heap (fst (removeTask s k)) r')) = Some k'"
    using k by (auto simp: removeTask_locks removeTask_fields split: option.splits)
qed

lemma pushOutput_fields:
  "nextRef (pushOutput s r l) = nextRef s"
  "awaiting (pushOutput s r l) = awaiting s"
  "runningProcesses (pushOutput s r l) = runningProcesses s"
  "tasks (pushOutput s r l) = tasks s"
  "folderLocks (pushOutput s r l) = folderLocks s"
  "task_id (heap (pushOutput s r l) r') = task_id (heap s r')"
  "folderPath (heap (pushOutput s r l) r') = folderPath (heap s r')"
  "status (heap (pushOutput s r l) r') = status (heap s r')"
  "exitCode (heap (pushOutput s r l) r') = exitCode (heap s r')"
  "completedAt (heap (pushOutput s r l) r') = completedAt (heap s r')"
  "agent (heap (pushOutput s r l) r') = agent (heap s r')"
  by (simp_all add: pushOutput_def)

lemma store_push: "store_ok s \<Longrightarrow> store_ok (pushOutput s r l)"
  unfolding store_ok_def by (simp add: pushOutput_fields)

lemma locks_push: "locks_ok s \<Longrightarrow> locks_ok (pushOutput s r l)"
  unfolding locks_ok_def by (simp add: pushOutput_fields)

text \<open>Ending a task: what the three ending paths have in common.\<close>

lemma ending_preserves:
  assumes so: "store_ok s" and lo: "locks_ok s" and r: "r < nextRef s"
    and nr: "nextRef s' = nextRef s" and ts: "tasks s' = tasks s"
    and aw: "set (awaiting s') \<subseteq> set (awaiting s)"
    and ids: "\<And>r'. task_id (heap s' r') = task_id (heap s r')"
    and fps: "\<And>r'. folderPath (heap s' r') = folderPath (heap s r')"
    and st: "\<And>r'. status (heap s' r') =
               (if tasks s (task_id (heap s r)) = Some r' then st else status (heap s r'))"
    and stn: "st \<noteq> Running"
    and lk: "\<And>f. folderLocks s' f =
               (if f = folderPath (heap s r) \<and> folderLocks s f = Some (task_id (heap s r))
                then None else folderLocks s f)"
  shows "store_ok s' \<and> locks_ok s'"
proof
  show "store_ok s'"
    using so aw unfolding store_ok_def by (auto simp: nr ts ids)
  have H1: "\<And>k r'. tasks s k = Some r' \<Longrightarrow> r' < nextRef s \<and> task_id (heap s r') = k"
    using so unfolding store_ok_def by blast
  have H2: "\<And>a b. a < nextRef s \<Longrightarrow> b < nextRef s \<Longrightarrow>
      task_id (heap s a) = task_id (heap s b) \<Longrightarrow> a = b"
    using so unfolding store_ok_def by blast
  show "locks_ok s'"
    unfolding locks_ok_def
  proof (intro conjI allI impI)
    fix f h assume a: "folderLocks s' f = Some h"
    then have l: "folderLocks s f = Some h"
      and n: "\<not> (f = folderPath (heap s r) \<and> h = task_id (heap s r))"
      by (auto simp: lk split: if_splits)
    from lo l obtain r0 where r0: "tasks s h = Some r0" "status (heap s r0) = Running"
      "folderPath (heap s r0) = f"
      unfolding locks_ok_def by blast
    have "tasks s (task_id (heap s r)) \<noteq> Some r0"
    proof
      assume e: "tasks s (task_id (heap s r)) = Some r0"
      then have "task_id (heap s r0) = task_id (heap s r)" "r0 < nextRef s"
        using H1 by blast+
      then have "r0 = r" using H2 r by blast
      moreover have "h = task_id (heap s r0)" using H1 r0(1) by simp
      ultimately show False using n r0(3) by simp
    qed
    then have "status (heap s' r0) = Running" using r0(2) by (simp add: st)
    then show "\<exists>r. tasks s' h = Some r \<and> status (heap s' r) = Running \<and>
        folderPath (heap s' r) = f"
      using r0 by (auto simp: ts fps)
  next
    fix k' r' assume a: "tasks s' k' = Some r'" "status (heap s' r') = Running"
    then have t: "tasks s k' = Some r'" by (simp add: ts)
    have ne: "tasks s (task_id (heap s r)) \<noteq> Some r'"
      using a(2) stn by (auto simp: st split: if_splits)
    then have run: "status (heap s r') = Running" using a(2) by (simp add: st)
    with lo t have l: "folderLocks s (folderPath (heap s r')) = Some k'"
      unfolding locks_ok_def by blast
    have "k' \<noteq> task_id (heap s r)" using ne t by auto
    then show "folderLocks s' (folderPath (heap s' r')) = Some k'"
      using l by (simp add: lk fps)
  qed
qed

lemma reorderTask_fields:
  "heap (fst (reorderTask s k d)) = heap s"
  "nextRef (fst (reorderTask s k d)) = nextRef s"
  "awaiting (fst (reorderTask s k d)) = awaiting s"
  "runningProcesses (fst (reorderTask s k d)) = runningProcesses s"
  "tasks (fst (reorderTask s k d)) = tasks s"
  "folderLocks (fst (reorderTask s k d)) = folderLocks s"
  by (simp_all add: reorderTask_def Let_def)

lemma store_reorder: "store_ok s \<Longrightarrow> store_ok (fst (reorderTask s k d))"
  unfolding store_ok_def by (simp add: reorderTask_fields)

lemma locks_reorder: "locks_ok s \<Longrightarrow> locks_ok (fst (reorderTask s k d))"
  unfolding locks_ok_def by (simp add: reorderTask_fields)

lemma pushOutput_fields2:
  "taskOrder (pushOutput s r l) = taskOrder s"
  "killed (pushOutput s r l) = killed s"
  by (simp_all add: pushOutput_def)

lemma executeTask_exited_fields:
  "nextRef (executeTask_exited s r code now) = nextRef s"
  "tasks (executeTask_exited s r code now) = tasks s"
  "taskOrder (executeTask_exited s r code now) = taskOrder s"
  "awaiting (executeTask_exited s r code now) = remove1 r (awaiting s)"
  "runningProcesses (executeTask_exited s r code now) =
     (runningProcesses s)(task_id (heap s r) := None)"
  "heap (executeTask_exited s r code now) r' =
     (if tasks s (task_id (heap s r)) = Some r'
      then object_assign (heap s r')
             [SetStatus (if code = 0 then Completed else Error), SetExitCode code,
              SetCompletedAt now]
      else heap s r')"
  "folderLocks (executeTask_exited s r code now) f =
     (if f = folderPath (heap s r) \<and> folderLocks s f = Some (task_id (heap s r)) then None
      else folderLocks s f)"
  by (auto simp: executeTask_exited_def Let_def updateTask_fields updateTask_heap
      releaseFolderLock_fields releaseFolderLock_locks)

lemma exited_preserves:
  assumes "store_ok s" "locks_ok s" "r < nextRef s"
  shows "store_ok (executeTask_exited s r code now) \<and> locks_ok (executeTask_exited s r code now)"
proof (rule ending_preserves [OF assms, where st = "if code = 0 then Completed else Error"])
  show "set (awaiting (executeTask_exited s r code now)) \<subseteq> set (awaiting s)"
    by (simp add: executeTask_exited_fields set_remove1_subset)
qed (simp_all add: executeTask_exited_fields)

lemma executeTask_catch_fields:
  "nextRef (executeTask_catch s r err now) = nextRef s"
  "tasks (executeTask_catch s r err now) = tasks s"
  "taskOrder (executeTask_catch s r err now) = taskOrder s"
  "awaiting (executeTask_catch s r err now) = awaiting s"
  "runningProcesses (executeTask_catch s r err now) =
     (runningProcesses s)(task_id (heap s r) := None)"
  "folderLocks (executeTask_catch s r err now) f =
     (if f = folderPath (heap s r) \<and> folderLocks s f = Some (task_id (heap s r)) then None
      else folderLocks s f)"
  by (auto simp: executeTask_catch_def Let_def updateTask_fields updateTask_heap
      releaseFolderLock_fields releaseFolderLock_locks pushOutput_fields pushOutput_fields2)

lemma executeTask_catch_heap:
  "heap (executeTask_catch s r err now) r' =
     (let t = (if r' = r
               then (heap s r)\<lparr>terminalOutput := terminalOutput (heap s r)
                       @ [''[error] '' @ (case err of JsError m \<Rightarrow> m)]\<rparr>
               else heap s r')
      in if tasks s (task_id (heap s r)) = Some r'
         then object_assign t [SetStatus Error, SetExitCode (- 1), SetCompletedAt now]
         else t)"
  by (simp add: executeTask_catch_def Let_def updateTask_fields updateTask_heap
      releaseFolderLock_fields pushOutput_def)

lemma catch_preserves:
  assumes "store_ok s" "locks_ok s" "r < nextRef s"
  shows "store_ok (executeTask_catch s r err now) \<and> locks_ok (executeTask_catch s r err now)"
  by (rule ending_preserves [OF assms, where st = Error])
     (simp_all add: executeTask_catch_fields executeTask_catch_heap Let_def)

lemma stopTask_fields:
  "nextRef (fst (stopTask s k now)) = nextRef s"
  "tasks (fst (stopTask s k now)) = tasks s"
  "taskOrder (fst (stopTask s k now)) = taskOrder s"
  "awaiting (fst (stopTask s k now)) = awaiting s"
  "runningProcesses (fst (stopTask s k now)) = (runningProcesses s)(k := None)"
  by (auto simp: stopTask_def getTask_def Let_def updateTask_fields
      releaseFolderLock_fields pushOutput_fields pushOutput_fields2 split: option.splits)

lemma stopTask_found:
  assumes "runningProcesses s k = Some p" "tasks s k = Some r"
  shows "heap (fst (stopTask s k now)) r' =
           (if r' = r
            then (object_assign (heap s r) [SetStatus Error, SetExitCode (- 9), SetCompletedAt now])
                   \<lparr>terminalOutput := terminalOutput (heap s r) @ [''[system] Task stopped by user'']\<rparr>
            else heap s r')"
    and "folderLocks (fst (stopTask s k now)) f =
           (if f = folderPath (heap s r) \<and> folderLocks s f = Some (task_id (heap s r)) then None
            else folderLocks s f)"
    and "snd (stopTask s k now) = True"
  using assms
  by (auto simp: stopTask_def getTask_def Let_def updateTask_fields updateTask_heap
      releaseFolderLock_fields releaseFolderLock_locks pushOutput_def)

lemma stopTask_not_found:
  assumes "runningProcesses s k = Some p" "tasks s k = None"
  shows "heap (fst (stopTask s k now)) = heap s"
    and "folderLocks (fst (stopTask s k now)) = folderLocks s"
  using assms by (auto simp: stopTask_def getTask_def Let_def)

lemma stopTask_none: "runningProcesses s k = None \<Longrightarrow> stopTask s k now = (s, False)"
  by (simp add: stopTask_def)

lemma stop_preserves:
  assumes so: "store_ok s" and lo: "locks_ok s"
  shows "store_ok (fst (stopTask s k now)) \<and> locks_ok (fst (stopTask s k now))"
proof (cases "runningProcesses s k")
  case None
  then show ?thesis using assms by (simp add: stopTask_none)
next
  case (Some p)
  show ?thesis
  proof (cases "tasks s k")
    case None
    with Some so lo show ?thesis
      unfolding store_ok_def locks_ok_def
      by (simp add: stopTask_fields stopTask_not_found)
  next
    case (Some r)
    have r: "r < nextRef s" "task_id (heap s r) = k"
      using so Some unfolding store_ok_def by blast+
    show ?thesis
      by (rule ending_preserves [OF so lo r(1), where st = Error])
         (auto simp: stopTask_fields stopTask_found [OF \<open>runningProcesses s k = Some p\<close> Some] r(2) Some)
  qed
qed

lemma acquireFolderLock_fields:
  "heap (fst (acquireFolderLock s r)) = heap s"
  "nextRef (fst (acquireFolderLock s r)) = nextRef s"
  "tasks (fst (acquireFolderLock s r)) = tasks s"
  "taskOrder (fst (acquireFolderLock s r)) = taskOrder s"
  "awaiting (fst (acquireFolderLock s r)) = awaiting s"
  "runningProcesses (fst (acquireFolderLock s r)) = runningProcesses s"
  "snd (acquireFolderLock s r) = canStartTask s r"
  "folderLocks (fst (acquireFolderLock s r)) =
     (if canStartTask s r then (folderLocks s)(folderPath (heap s r) \<mapsto> task_id (heap s r))
      else folderLocks s)"
  by (simp_all add: acquireFolderLock_def Let_def)

lemma started_fields:
  "nextRef (started s r now) = nextRef s"
  "tasks (started s r now) = tasks s"
  "taskOrder (started s r now) = taskOrder s"
  "awaiting (started s r now) = awaiting s"
  "runningProcesses (started s r now) = runningProcesses s"
  "folderLocks (started s r now) = folderLocks (fst (acquireFolderLock s r))"
  "heap (started s r now) r' =
     (if tasks s (task_id (heap s r)) = Some r'
      then object_assign (heap s r') [SetStatus Running, SetStartedAt now] else heap s r')"
  by (simp_all add: started_def updateTask_fields updateTask_heap acquireFolderLock_fields)

lemma started_preserves:
  assumes so: "store_ok s" and lo: "locks_ok s"
    and reg: "tasks s (task_id (heap s r)) = Some r" and can: "canStartTask s r"
  shows "store_ok (started s r now) \<and> locks_ok (started s r now)"
proof
  let ?s = "started s r now"
  have H1: "\<And>k r'. tasks s k = Some r' \<Longrightarrow> r' < nextRef s \<and> task_id (heap s r') = k"
    using so unfolding store_ok_def by blast
  have H4: "\<And>a. a < nextRef s \<Longrightarrow> task_id (heap s a) \<noteq> []"
    using so unfolding store_ok_def by blast
  have ids: "\<And>r'. task_id (heap ?s r') = task_id (heap s r')"
    and fps: "\<And>r'. folderPath (heap ?s r') = folderPath (heap s r')"
    and sts: "\<And>r'. status (heap ?s r') = (if r' = r then Running else status (heap s r'))"
    using reg by (auto simp: started_fields)
  have lk: "folderLocks ?s = (folderLocks s)(folderPath (heap s r) \<mapsto> task_id (heap s r))"
    using can by (simp add: started_fields acquireFolderLock_fields)
  show "store_ok ?s"
    using so unfolding store_ok_def by (simp add: started_fields(1-4) ids)
  show "locks_ok ?s"
    unfolding locks_ok_def
  proof (intro conjI allI impI)
    fix f h assume a: "folderLocks ?s f = Some h"
    show "\<exists>r'. tasks ?s h = Some r' \<and> status (heap ?s r') = Running \<and> folderPath (heap ?s r') = f"
    proof (cases "f = folderPath (heap s r)")
      case True
      then have "h = task_id (heap s r)" using a by (simp add: lk)
      then show ?thesis using reg True by (simp add: started_fields(2) sts fps)
    next
      case False
      then have "folderLocks s f = Some h" using a by (simp add: lk)
      with lo obtain r0 where "tasks s h = Some r0" "status (heap s r0) = Running"
        "folderPath (heap s r0) = f"
        unfolding locks_ok_def by blast
      then show ?thesis by (auto simp: started_fields(2) sts fps)
    qed
  next
    fix k' r' assume a: "tasks ?s k' = Some r'" "status (heap ?s r') = Running"
    then have t: "tasks s k' = Some r'" by (simp add: started_fields(2))
    show "folderLocks ?s (folderPath (heap ?s r')) = Some k'"
    proof (cases "r' = r")
      case True
      then have "k' = task_id (heap s r)" using H1 t by blast
      then show ?thesis using True by (simp add: lk fps)
    next
      case False
      then have "status (heap s r') = Running" using a(2) by (simp add: sts)
      with lo t have l: "folderLocks s (folderPath (heap s r')) = Some k'"
        unfolding locks_ok_def by blast
      have "folderPath (heap s r') \<noteq> folderPath (heap s r)"
      proof
        assume e: "folderPath (heap s r') = folderPath (heap s r)"
        then have "k' = [] \<or> k' = task_id (heap s r)"
          using can l by (simp add: canStartTask_def Let_def)
        moreover have "k' \<noteq> []" using H1 [OF t] H4 by blast
        moreover have "k' \<noteq> task_id (heap s r)" using reg t False by auto
        ultimately show False by blast
      qed
      then show ?thesis using l by (simp add: lk fps)
    qed
  qed
qed

lemma executeTask_cases:
  "executeTask s r e now now' =
     (if \<not> canStartTask s r
      then (s, Rejected (JsError (''Folder '' @ folderPath (heap s r)
                                   @ '' is locked by another task'')))
      else case buildCommand (heap (started s r now) r) (process_cwd e) of
             Inl err \<Rightarrow> (started s r now, Rejected err)
           | Inr (cmd, cwd) \<Rightarrow>
               (case bun_spawn e cmd cwd of
                  SpawnError err \<Rightarrow> (executeTask_catch (started s r now) r err now', Resolved)
                | Spawned proc \<Rightarrow>
                    ((started s r now)\<lparr>runningProcesses :=
                        (runningProcesses (started s r now))
                          (task_id (heap (started s r now) r) \<mapsto> proc),
                      awaiting := awaiting (started s r now) @ [r]\<rparr>, Pending)))"
  by (simp add: executeTask_def started_def acquireFolderLock_def Let_def
      split: sum.splits prod.splits spawn_result.splits)

lemma execute_preserves:
  assumes so: "store_ok s" and lo: "locks_ok s"
    and reg: "tasks s (task_id (heap s r)) = Some r"
  shows "store_ok (fst (executeTask s r e now now')) \<and> locks_ok (fst (executeTask s r e now now'))"
proof (cases "canStartTask s r")
  case False
  then show ?thesis using so lo by (simp add: executeTask_cases)
next
  case True
  note st = started_preserves [OF so lo reg True, of now]
  have r: "r < nextRef (started s r now)"
    using so reg unfolding store_ok_def by (auto simp: started_fields)
  show ?thesis
  proof (cases "buildCommand (heap (started s r now) r) (process_cwd e)")
    case (Inl err)
    then show ?thesis using True st by (simp add: executeTask_cases)
  next
    case (Inr c)
    obtain cmd cwd where c: "c = (cmd, cwd)" by (cases c)
    show ?thesis
    proof (cases "bun_spawn e cmd cwd")
      case (SpawnError err)
      then show ?thesis
        using True Inr c catch_preserves [OF st [THEN conjunct1] st [THEN conjunct2] r]
        by (simp add: executeTask_cases)
    next
      case (Spawned proc)
      have "store_ok ((started s r now)\<lparr>runningProcesses :=
                        (runningProcesses (started s r now))
                          (task_id (heap (started s r now) r) \<mapsto> proc),
                      awaiting := awaiting (started s r now) @ [r]\<rparr>)"
        using st r unfolding store_ok_def by auto
      moreover have "locks_ok ((started s r now)\<lparr>runningProcesses :=
                        (runningProcesses (started s r now))
                          (task_id (heap (started s r now) r) \<mapsto> proc),
                      awaiting := awaiting (started s r now) @ [r]\<rparr>)"
        using st unfolding locks_ok_def by simp
      ultimately show ?thesis
        using True Inr c Spawned by (simp add: executeTask_cases)
    qed
  qed
qed

lemma indexOf_ge: "- 1 \<le> indexOf xs x"
  by (induction xs) (auto simp: Let_def)

lemma indexOf_absent: "(indexOf xs x = - 1) = (x \<notin> set xs)"
proof (induction xs)
  case Nil
  show ?case by simp
next
  case (Cons y ys)
  have "- 1 \<le> indexOf ys x" by (rule indexOf_ge)
  with Cons show ?case by (auto simp: Let_def)
qed

lemma indexOf_present:
  "x \<in> set xs \<Longrightarrow>
     0 \<le> indexOf xs x \<and> nat (indexOf xs x) < length xs \<and> xs ! nat (indexOf xs x) = x \<and>
     x \<notin> set (take (nat (indexOf xs x)) xs)"
proof (induction xs)
  case Nil
  then show ?case by simp
next
  case (Cons y ys)
  show ?case
  proof (cases "y = x")
    case True
    then show ?thesis by simp
  next
    case False
    with Cons.prems have m: "x \<in> set ys" by simp
    note ih = Cons.IH [OF m]
    have ne: "indexOf ys x \<noteq> - 1" using m by (simp add: indexOf_absent)
    have n: "nat (indexOf ys x + 1) = Suc (nat (indexOf ys x))"
      using ih by (simp add: nat_add_distrib)
    show ?thesis using False ne ih by (simp add: Let_def n)
  qed
qed

lemma indexOf_first:
  "i < length xs \<Longrightarrow> xs ! i = x \<Longrightarrow> x \<notin> set (take i xs) \<Longrightarrow> indexOf xs x = int i"
proof (induction xs arbitrary: i)
  case Nil
  then show ?case by simp
next
  case (Cons y ys)
  show ?case
  proof (cases i)
    case 0
    with Cons.prems show ?thesis by simp
  next
    case (Suc j)
    with Cons.prems have "y \<noteq> x" "j < length ys" "ys ! j = x" "x \<notin> set (take j ys)"
      by auto
    with Cons.IH [of j] Suc show ?thesis by (simp add: Let_def)
  qed
qed

lemma splice1_indexOf:
  "x \<in> set xs \<Longrightarrow> splice1 xs (nat (indexOf xs x)) = remove1 x xs"
proof (induction xs)
  case Nil
  then show ?case by simp
next
  case (Cons y ys)
  show ?case
  proof (cases "y = x")
    case True
    then show ?thesis by (simp add: splice1_def)
  next
    case False
    with Cons.prems have m: "x \<in> set ys" by simp
    have ne: "indexOf ys x \<noteq> - 1" using m by (simp add: indexOf_absent)
    have n: "nat (indexOf ys x + 1) = Suc (nat (indexOf ys x))"
      using indexOf_present [OF m] by (simp add: nat_add_distrib)
    show ?thesis using False ne Cons.IH [OF m] by (simp add: Let_def n splice1_def)
  qed
qed

lemma removeTask_order:
  "taskOrder (fst (removeTask s k)) =
     (if tasks s k = None then taskOrder s else remove1 k (taskOrder s))"
proof (cases "k \<in> set (taskOrder s)")
  case True
  then have "indexOf (taskOrder s) k > - 1"
    using indexOf_ge [of "taskOrder s" k] indexOf_absent [of "taskOrder s" k] by linarith
  then show ?thesis using True
    by (auto simp: removeTask_def Let_def splice1_indexOf split: option.splits)
next
  case False
  then have "indexOf (taskOrder s) k = - 1" by (simp add: indexOf_absent)
  then show ?thesis using False
    by (auto simp: removeTask_def Let_def remove1_idem split: option.splits)
qed

lemma reorderTask_order_set:
  "set (taskOrder (fst (reorderTask s k d))) = set (taskOrder s)"
  "distinct (taskOrder (fst (reorderTask s k d))) = distinct (taskOrder s)"
proof -
  let ?xs = "taskOrder s"
  have sw: "\<And>i j. i < length ?xs \<Longrightarrow> j < length ?xs \<Longrightarrow>
      set (?xs[i := ?xs ! j, j := ?xs ! i]) = set ?xs \<and>
      distinct (?xs[i := ?xs ! j, j := ?xs ! i]) = distinct ?xs"
    by (simp add: set_swap distinct_swap)
  have g: "set (taskOrder (fst (reorderTask s k d))) = set (taskOrder s) \<and>
      distinct (taskOrder (fst (reorderTask s k d))) = distinct (taskOrder s)"
  proof (cases "k \<in> set ?xs")
    case False
    then have "indexOf ?xs k = - 1" by (simp add: indexOf_absent)
    then show ?thesis by (simp add: reorderTask_def)
  next
    case True
    note p = indexOf_present [OF True]
    have ne: "indexOf ?xs k \<noteq> - 1" using p by linarith
    show ?thesis
    proof (cases "(if d = Up then indexOf ?xs k - 1 else indexOf ?xs k + 1) < 0 \<or>
        (if d = Up then indexOf ?xs k - 1 else indexOf ?xs k + 1) \<ge> int (length ?xs)")
      case True
      then show ?thesis using ne by (simp add: reorderTask_def Let_def)
    next
      case False
      then have "nat (if d = Up then indexOf ?xs k - 1 else indexOf ?xs k + 1) < length ?xs"
        by linarith
      from sw [OF conjunct1 [OF conjunct2 [OF p]] this] False ne
      show ?thesis by (simp add: reorderTask_def Let_def)
    qed
  qed
  from g show "set (taskOrder (fst (reorderTask s k d))) = set (taskOrder s)" by blast
  from g show "distinct (taskOrder (fst (reorderTask s k d))) = distinct (taskOrder s)" by blast
qed

lemma order_init: "order_ok init_state"
  by (simp add: order_ok_def init_state_def)

lemma order_create:
  assumes "store_ok s" "order_ok s" "\<forall>r < nextRef s. task_id (heap s r) \<noteq> uuid"
  shows "order_ok (fst (createTask s folder ag pr orig uuid now))"
proof -
  have "tasks s uuid = None"
  proof (cases "tasks s uuid")
    case (Some r)
    with assms(1) have "r < nextRef s \<and> task_id (heap s r) = uuid"
      unfolding store_ok_def by blast
    with assms(3) show ?thesis by blast
  qed simp
  then have "uuid \<notin> set (taskOrder s)" using assms(2) by (auto simp: order_ok_def)
  then show ?thesis using assms(2) by (auto simp: order_ok_def createTask_def Let_def)
qed

lemma order_remove: "order_ok s \<Longrightarrow> order_ok (fst (removeTask s k))"
  by (auto simp: order_ok_def removeTask_order removeTask_fields)

lemma order_reorder: "order_ok s \<Longrightarrow> order_ok (fst (reorderTask s k d))"
  by (simp add: order_ok_def reorderTask_order_set reorderTask_fields)

lemma order_push: "order_ok s \<Longrightarrow> order_ok (pushOutput s r l)"
  by (simp add: order_ok_def pushOutput_fields pushOutput_fields2)

lemma order_exited: "order_ok s \<Longrightarrow> order_ok (executeTask_exited s r c n)"
  by (simp add: order_ok_def executeTask_exited_fields)

lemma order_stop: "order_ok s \<Longrightarrow> order_ok (fst (stopTask s k n))"
  by (simp add: order_ok_def stopTask_fields)

lemma order_execute: "order_ok s \<Longrightarrow> order_ok (fst (executeTask s r e n n'))"
  by (simp add: order_ok_def executeTask_cases started_fields executeTask_catch_fields
      split: sum.splits prod.splits spawn_result.splits)

lemma reachable_inv: "reachable s \<Longrightarrow> store_ok s \<and> locks_ok s \<and> order_ok s"
proof (induction rule: reachable.induct)
  case r_init
  show ?case using inv_init order_init by simp
next
  case (r_create s uuid folder ag pr orig now)
  then show ?case by (simp add: store_create locks_create order_create)
next
  case (r_remove s taskId)
  then show ?case by (simp add: store_remove locks_remove order_remove)
next
  case (r_reorder s taskId dir)
  then show ?case by (simp add: store_reorder locks_reorder order_reorder)
next
  case (r_execute s r e now now')
  then show ?case using execute_preserves [of s r e now now'] by (simp add: order_execute)
next
  case (r_output s r line)
  then show ?case by (simp add: store_push locks_push order_push)
next
  case (r_exited s r code now)
  then have "r < nextRef s" unfolding store_ok_def by blast
  with r_exited show ?case using exited_preserves [of s r code now] by (simp add: order_exited)
next
  case (r_stop s taskId now)
  then show ?case using stop_preserves [of s taskId now] by (simp add: order_stop)
qed

lemma locks_ok_exclusive: "store_ok s \<Longrightarrow> locks_ok s \<Longrightarrow> folder_exclusive s"
  unfolding folder_exclusive_def
proof (intro conjI allI impI)
  fix f assume a: "store_ok s" "locks_ok s"
  show "(folderLocks s f \<noteq> None) =
      (\<exists>k r. tasks s k = Some r \<and> folderPath (heap s r) = f \<and> status (heap s r) = Running)"
    using a(2) unfolding locks_ok_def by (metis option.distinct(1) not_Some_eq)
next
  fix f h assume a: "store_ok s" "locks_ok s" "folderLocks s f = Some h"
  then obtain r where "tasks s h = Some r" "status (heap s r) = Running" "folderPath (heap s r) = f"
    unfolding locks_ok_def by blast
  moreover from this a(1) have "task_id (heap s r) = h" unfolding store_ok_def by blast
  ultimately show "\<exists>r. tasks s h = Some r \<and> task_id (heap s r) = h \<and> folderPath (heap s r) = f
      \<and> status (heap s r) = Running" by blast
next
  fix k k' r r'
  assume a: "store_ok s" "locks_ok s" "tasks s k = Some r" "tasks s k' = Some r'"
    "status (heap s r) = Running" "status (heap s r') = Running"
    "folderPath (heap s r) = folderPath (heap s r')"
  then have "folderLocks s (folderPath (heap s r)) = Some k"
    "folderLocks s (folderPath (heap s r')) = Some k'"
    unfolding locks_ok_def by blast+
  with a(7) show "k = k'" by simp
qed

section \<open>The small run, evaluated\<close>

lemma s_created_simps:
  "heap s_created 0 = \<lparr>task_id = ''t1'', folderPath = ''/p'', agent = ''claude'', prompt = ''fix the tests'',
                  originalPrompt = None, status = Queued, terminalOutput = [],
                  exitCode = None, createdAt = 10, startedAt = None, completedAt = None\<rparr>"
  "tasks s_created = [''t1'' \<mapsto> 0]"
  "taskOrder s_created = [''t1'']"
  "folderLocks s_created = Map.empty"
  "runningProcesses s_created = Map.empty"
  "nextRef s_created = 1"
  by (simp_all add: s_created_def createTask_def init_state_def normalizePath_def Let_def)

lemma s_running_simps:
  "heap s_running 0 = \<lparr>task_id = ''t1'', folderPath = ''/p'', agent = ''claude'', prompt = ''fix the tests'',
                  originalPrompt = None, status = Running, terminalOutput = [],
                  exitCode = None, createdAt = 10, startedAt = Some 20, completedAt = None\<rparr>"
  "tasks s_running = [''t1'' \<mapsto> 0]"
  "taskOrder s_running = [''t1'']"
  "folderLocks s_running = [''/p'' \<mapsto> ''t1'']"
  "runningProcesses s_running = [''t1'' \<mapsto> 7]"
  "awaiting s_running = [0]"
  by (simp_all add: s_running_def executeTask_def acquireFolderLock_def canStartTask_def
      updateTask_def buildCommand_def env_spawns_def object_assign_def s_created_simps Let_def
      s_created_def createTask_def init_state_def normalizePath_def)

lemma reachable_created: "reachable s_created"
  unfolding s_created_def
  by (rule r_create [OF r_init]) (simp_all add: init_state_def)

lemma reachable_running: "reachable s_running"
  unfolding s_running_def
  by (rule r_execute [OF reachable_created]) (simp add: s_created_simps)

lemma s_stopped_simps:
  "heap s_stopped 0 = \<lparr>task_id = ''t1'', folderPath = ''/p'', agent = ''claude'', prompt = ''fix the tests'',
                  originalPrompt = None, status = Error, terminalOutput = [''[system] Task stopped by user''],
                  exitCode = Some (- 9), createdAt = 10, startedAt = Some 20, completedAt = Some 30\<rparr>"
  "tasks s_stopped = [''t1'' \<mapsto> 0]"
  "folderLocks s_stopped f = None"
  "runningProcesses s_stopped = Map.empty"
  "awaiting s_stopped = [0]"
  by (simp_all add: s_stopped_def stopTask_fields stopTask_found [where p = 7 and r = 0]
      s_running_simps object_assign_def)

lemma buildCommand_started:
  "tasks s (task_id (heap s r)) = Some r \<Longrightarrow>
   buildCommand (heap (started s r now) r) c = buildCommand (heap s r) c"
  by (simp add: buildCommand_def started_fields)

lemma swapped_update:
  "i < length xs \<Longrightarrow> j < length xs \<Longrightarrow> swapped xs i j (xs[i := xs ! j, j := xs ! i])"
  by (auto simp: swapped_def nth_list_update)

lemma reorderTask_absent: "taskId \<notin> set (taskOrder s) \<Longrightarrow> reorderTask s taskId dir = (s, False)"
  by (simp add: reorderTask_def indexOf_absent)

lemma reorderTask_at:
  assumes "i < length (taskOrder s)" "taskOrder s ! i = taskId" "taskId \<notin> set (take i (taskOrder s))"
  shows "reorderTask s taskId dir =
     (let newIndex = (if dir = Up then int i - 1 else int i + 1) in
      if newIndex < 0 \<or> newIndex \<ge> int (length (taskOrder s)) then (s, False)
      else (s\<lparr>taskOrder := (taskOrder s)[i := taskOrder s ! nat newIndex,
                                            nat newIndex := taskOrder s ! i]\<rparr>, True))"
  using indexOf_first [OF assms] by (simp add: reorderTask_def Let_def)

lemma s_three_order: "taskOrder s_three = [''a'', ''b'', ''c'']"
  by (simp add: s_three_def createTask_def init_state_def Let_def)

section \<open>Splitting a text that arrives in chunks\<close>

lemma split_nl_nonempty [simp]: "split_nl xs \<noteq> []"
  by (induction xs) (auto split: list.splits)

lemma split_nl_Cons:
  "split_nl (c # cs) =
     (if c = CHR 0x0A then [] # split_nl cs else (c # hd (split_nl cs)) # tl (split_nl cs))"
  by (cases "split_nl cs") (use split_nl_nonempty [of cs] in auto)

lemma split_nl_no_newline: "CHR 0x0A \<notin> set xs \<Longrightarrow> split_nl xs = [xs]"
  by (induction xs) auto

lemma last_split_nl_no_newline: "CHR 0x0A \<notin> set (last (split_nl xs))"
proof (induction xs)
  case Nil
  show ?case by simp
next
  case (Cons c cs)
  show ?case
  proof (cases "split_nl cs")
    case Nil
    then show ?thesis using split_nl_nonempty [of cs] by simp
  next
    case (Cons l ls)
    with Cons.IH show ?thesis by (cases ls) auto
  qed
qed

lemma split_nl_append:
  "split_nl (xs @ ys) = butlast (split_nl xs) @ split_nl (last (split_nl xs) @ ys)"
proof (induction xs)
  case Nil
  show ?case by simp
next
  case (Cons c cs)
  obtain l ls where s: "split_nl cs = l # ls"
    using split_nl_nonempty [of cs] by (cases "split_nl cs") auto
  show ?case
  proof (cases "c = CHR 0x0A")
    case True
    with Cons s show ?thesis by simp
  next
    case False
    show ?thesis
    proof (cases ls)
      case Nil
      with Cons s False show ?thesis by (simp add: split_nl_Cons del: split_nl.simps)
    next
      case (Cons l' ls')
      with Cons.IH s False show ?thesis by (simp add: split_nl_Cons del: split_nl.simps)
    qed
  qed
qed

lemma spec_lines_append:
  "spec_lines (xs @ ys) = butlast (split_nl xs) @ spec_lines (last (split_nl xs) @ ys)"
  by (simp add: spec_lines_def Let_def split_nl_append [of xs ys] butlast_append)

lemma spec_lines_no_newline:
  "CHR 0x0A \<notin> set xs \<Longrightarrow> spec_lines xs = (if xs = [] then [] else [xs])"
  by (simp add: spec_lines_def split_nl_no_newline)

lemma push_all_simps [simp]:
  "push_all s r [] = s"
  "push_all s r (l # ls) = push_all (pushOutput s r l) r ls"
  "push_all s r (ls @ ls') = push_all (push_all s r ls) r ls'"
  by (simp_all add: push_all_def)

lemma foldl_push_prefix:
  "foldl (\<lambda>s line. pushOutput s r (prefix @ line)) s ls = push_all s r (map ((@) prefix) ls)"
  by (induction ls arbitrary: s) simp_all

lemma push_all_log:
  "push_all s r ls =
     s\<lparr>heap := (heap s)(r := (heap s r)\<lparr>terminalOutput := terminalOutput (heap s r) @ ls\<rparr>)\<rparr>"
proof (induction ls arbitrary: s)
  case Nil
  show ?case by simp
next
  case (Cons l ls)
  have "push_all s r (l # ls) = push_all (pushOutput s r l) r ls" by simp
  also have "\<dots> = (pushOutput s r l)\<lparr>heap := (heap (pushOutput s r l))(r :=
      (heap (pushOutput s r l) r)\<lparr>terminalOutput :=
         terminalOutput (heap (pushOutput s r l) r) @ ls\<rparr>)\<rparr>"
    by (rule Cons.IH)
  also have "\<dots> = s\<lparr>heap := (heap s)(r := (heap s r)\<lparr>terminalOutput :=
      terminalOutput (heap s r) @ l # ls\<rparr>)\<rparr>"
    by (simp add: pushOutput_def)
  finally show ?case .
qed

text \<open>
  Decoding in chunks gives the text of decoding at once; bytes below 0x80 are their own
  text. With one stream read alone, the lines pushed are the lines of the text of its
  chunks.
\<close>

lemma decode_append:
  "decode d (xs @ ys) =
     (let (d1, out1) = decode d xs; (d2, out2) = decode d1 ys in (d2, out1 @ out2))"
  by (induction xs arbitrary: d) (auto simp: Let_def split: prod.splits)

lemma decode_ascii:
  "bytes_needed d = 0 \<Longrightarrow> \<forall>b \<in> set bs. (of_char b :: nat) \<le> 0x7F \<Longrightarrow>
   snd (decode d bs) = bs \<and> bytes_needed (fst (decode d bs)) = 0"
proof (induction bs arbitrary: d)
  case Nil
  then show ?case by simp
next
  case (Cons b bs)
  have e: "decode_byte d b = (d\<lparr>bom_seen := True\<rparr>, [b])"
    using Cons.prems
    by (simp add: decode_byte_def lead_byte_def emit_def byte_order_mark_def Let_def)
  have "bytes_needed (d\<lparr>bom_seen := True\<rparr>) = 0" using Cons.prems by simp
  from Cons.IH [OF this] Cons.prems(2) e show ?case
    by (auto simp: Let_def split: prod.splits)
qed

lemma text_of_ascii:
  "\<forall>b \<in> set (concat chunks). (of_char b :: nat) \<le> 0x7F \<Longrightarrow> text_of chunks = concat chunks"
  using decode_ascii [of new_TextDecoder "concat chunks"]
  by (simp add: text_of_def new_TextDecoder_def)

lemma buffer_set_buffer [simp]:
  "buffer_of (set_buffer io st b) st = b"
  "decoder (set_buffer io st b) = decoder io"
  by (cases st; simp add: buffer_of_def set_buffer_def)+

lemma readStreams_loop_one_stream:
  "CHR 0x0A \<notin> set (buffer_of io st) \<Longrightarrow>
   fst (readStreams_loop s r io (map (\<lambda>c. (st, Value c)) chunks @ [(st, DoneReading)])) =
     push_all s r (map ((@) (prefix_of st))
       (spec_lines (buffer_of io st @ snd (decode (decoder io) (concat chunks)))))"
proof (induction chunks arbitrary: s io)
  case Nil
  then show ?case by (simp add: readStream_read_def spec_lines_no_newline)
next
  case (Cons chunk rest)
  obtain d1 t1 where d: "decode (decoder io) chunk = (d1, t1)" by (cases "decode (decoder io) chunk")
  let ?lines = "split_nl (buffer_of io st @ t1)"
  let ?io = "set_buffer (io\<lparr>decoder := d1\<rparr>) st (pop_or_empty ?lines)"
  let ?s = "push_all s r (map ((@) (prefix_of st)) (butlast ?lines))"
  have step: "readStream_read s r io st (Value chunk) = (?s, ?io)"
    by (simp add: readStream_read_def d Let_def foldl_push_prefix del: split_nl.simps)
  have "CHR 0x0A \<notin> set (buffer_of ?io st)"
    by (simp add: pop_or_empty_def last_split_nl_no_newline)
  note ih = Cons.IH [OF this, of ?s]
  have dec: "snd (decode (decoder io) (chunk @ concat rest)) = t1 @ snd (decode d1 (concat rest))"
    by (simp add: decode_append d Let_def split: prod.splits)
  have "spec_lines (buffer_of io st @ t1 @ snd (decode d1 (concat rest))) =
      butlast ?lines @ spec_lines (pop_or_empty ?lines @ snd (decode d1 (concat rest)))"
    using spec_lines_append [of "buffer_of io st @ t1" "snd (decode d1 (concat rest))"]
    by (simp add: pop_or_empty_def)
  then show ?case
    using ih by (simp add: step dec del: split_nl.simps decode.simps)
qed

lemma readStreams_one_stream:
  "readStreams s r (map (\<lambda>c. (st, Value c)) chunks @ [(st, DoneReading)]) =
     s\<lparr>heap := (heap s)(r := (heap s r)\<lparr>terminalOutput :=
          terminalOutput (heap s r) @ map ((@) (prefix_of st)) (spec_lines (text_of chunks))\<rparr>)\<rparr>"
  using readStreams_loop_one_stream
    [of "\<lparr>decoder = new_TextDecoder, stdout_buffer = [], stderr_buffer = []\<rparr>" st s r chunks]
  by (cases st) (simp_all add: readStreams_def push_all_log text_of_def buffer_of_def)

section \<open>The selection of a scheduler pass\<close>

lemma startable_of_simps:
  "startable_of s [] = []"
  "startable_of s (k # ks) =
     (case tasks s k of None \<Rightarrow> startable_of s ks
      | Some r \<Rightarrow> if status (heap s r) = Queued \<and> canStartTask s r then r # startable_of s ks
                  else startable_of s ks)"
  by (auto simp: startable_of_def List.map_filter_simps split: option.splits)

lemma loop_pick:
  "getNextRunnableTasks_loop s ids runnable folders =
     runnable @ pick s (startable_of s ids) folders"
  by (induction ids arbitrary: runnable folders)
     (auto simp: startable_of_simps split: option.splits)

lemma getNextRunnableTasks_pick: "getNextRunnableTasks s = pick s (startable s) {}"
  by (simp add: getNextRunnableTasks_def loop_pick startable_def startable_of_def queued_refs_def)

lemma pick_index:
  "pick s xs F =
     map ((!) xs)
       (filter (\<lambda>i. folderPath (heap s (xs ! i)) \<notin> F \<union> (\<lambda>r. folderPath (heap s r)) ` set (take i xs))
          [0..<length xs])"
proof (induction xs arbitrary: F)
  case Nil
  show ?case by simp
next
  case (Cons x xs)
  have u: "[0..<length (x # xs)] = 0 # map Suc [0..<length xs]"
    by (simp add: upt_conv_Cons map_Suc_upt del: upt_Suc)
  show ?case
    unfolding u
    by (auto simp: Cons.IH filter_map comp_def simp del: upt_Suc
        intro!: arg_cong [where f = "map ((!) xs)"] filter_cong)
qed

lemma pick_first: "pick s xs {} = first_per_folder s xs"
  by (simp add: pick_index first_per_folder_def)

lemma pick_subset: "set (pick s xs F) \<subseteq> set xs"
  by (induction xs arbitrary: F) auto

lemma pick_folders:
  "r \<in> set (pick s xs F) \<Longrightarrow> folderPath (heap s r) \<notin> F"
  by (induction xs arbitrary: F) (auto split: if_splits)

lemma pick_distinct: "distinct (map (\<lambda>r. folderPath (heap s r)) (pick s xs F))"
  by (induction xs arbitrary: F) (auto dest: pick_folders)

lemma pick_find:
  "r \<in> set (pick s xs F) \<Longrightarrow> find (\<lambda>r'. folderPath (heap s r') = folderPath (heap s r)) xs = Some r"
proof (induction xs arbitrary: F)
  case Nil
  then show ?case by simp
next
  case (Cons x xs)
  show ?case
  proof (cases "r = x")
    case True
    then show ?thesis by simp
  next
    case False
    show ?thesis
    proof (cases "folderPath (heap s x) \<in> F")
      case True
      with Cons.prems have m: "r \<in> set (pick s xs F)" by simp
      then have "folderPath (heap s r) \<notin> F" by (rule pick_folders)
      with True have "folderPath (heap s x) \<noteq> folderPath (heap s r)" by auto
      with Cons.IH [OF m] show ?thesis by simp
    next
      case f: False
      with Cons.prems False
      have m: "r \<in> set (pick s xs (insert (folderPath (heap s x)) F))" by simp
      then have "folderPath (heap s r) \<notin> insert (folderPath (heap s x)) F" by (rule pick_folders)
      then have "folderPath (heap s x) \<noteq> folderPath (heap s r)" by auto
      with Cons.IH [OF m] show ?thesis by simp
    qed
  qed
qed

lemma find_filter_same:
  "\<forall>x \<in> set xs. P x \<longrightarrow> Q x \<Longrightarrow> find P (filter Q xs) = find P xs"
  by (induction xs) auto

lemma startable_same_folder:
  assumes nq: "no_queued_holder s" and r: "r \<in> set (startable s)"
    and r': "r' \<in> set (queued_refs s)" and f: "folderPath (heap s r') = folderPath (heap s r)"
  shows "canStartTask s r'"
proof (rule ccontr)
  assume n: "\<not> canStartTask s r'"
  then obtain h where h: "folderLocks s (folderPath (heap s r')) = Some h" "h \<noteq> []"
    by (auto simp: canStartTask_def Let_def split: option.splits)
  from r have "canStartTask s r" "r \<in> set (queued_refs s)" by (simp_all add: startable_def)
  with h f have "h = task_id (heap s r)" by (simp add: canStartTask_def Let_def)
  with nq \<open>r \<in> set (queued_refs s)\<close> h f show False by (auto simp: no_queued_holder_def)
qed

lemma queued_refs_mem:
  "r \<in> set (queued_refs s) \<Longrightarrow> \<exists>k. tasks s k = Some r \<and> status (heap s r) = Queued"
  by (auto simp: queued_refs_def List.map_filter_def split: option.splits if_splits)

lemma reachable_no_queued_holder: "reachable s \<Longrightarrow> no_queued_holder s"
  unfolding no_queued_holder_def
proof
  fix r assume re: "reachable s" and m: "r \<in> set (queued_refs s)"
  then obtain k where k: "tasks s k = Some r" "status (heap s r) = Queued"
    using queued_refs_mem by blast
  from re have so: "store_ok s" and lo: "locks_ok s" using reachable_inv by blast+
  show "folderLocks s (folderPath (heap s r)) \<noteq> Some (task_id (heap s r))"
  proof
    assume "folderLocks s (folderPath (heap s r)) = Some (task_id (heap s r))"
    with lo obtain r0 where r0: "tasks s (task_id (heap s r)) = Some r0" "status (heap s r0) = Running"
      unfolding locks_ok_def by blast
    have "task_id (heap s r) = k" using so k(1) unfolding store_ok_def by blast
    with r0 k show False by simp
  qed
qed

lemma reachable_three: "reachable s_three"
  unfolding s_three_def
  by (rule r_create r_init | simp add: createTask_def init_state_def Let_def less_Suc_eq)+

lemma s_three_simps:
  "tasks s_three = [''a'' \<mapsto> 0, ''b'' \<mapsto> Suc 0, ''c'' \<mapsto> Suc (Suc 0)]"
  "folderLocks s_three = Map.empty"
  "task_id (heap s_three 0) = ''a''" "folderPath (heap s_three 0) = ''/p''"
  "status (heap s_three 0) = Queued"
  "task_id (heap s_three (Suc 0)) = ''b''" "folderPath (heap s_three (Suc 0)) = ''/p''"
  "status (heap s_three (Suc 0)) = Queued"
  "task_id (heap s_three (Suc (Suc 0))) = ''c''" "folderPath (heap s_three (Suc (Suc 0))) = ''/q''"
  "status (heap s_three (Suc (Suc 0))) = Queued"
  by (simp_all add: s_three_def createTask_def init_state_def normalizePath_def Let_def)

lemma s_held_simps:
  "tasks s_held = tasks s_three" "taskOrder s_held = taskOrder s_three" "heap s_held = heap s_three"
  "folderLocks s_held = [''/p'' \<mapsto> ''b'']"
  by (simp_all add: s_held_def acquireFolderLock_def canStartTask_def Let_def s_three_simps)

section \<open>How a call of executeTask ends\<close>

text \<open>
  A spawn failure runs the catch block: the lock is released, the task has status error and
  the error line, nothing else changes. An agent that \<^verbatim>\<open>buildCommand\<close> does not know leaves
  the lock and the running status behind. The exit of a process stores status, exit code
  and completion time whatever the task held before.
\<close>

lemma executeTask_spawn_failure_contained:
  assumes reg: "tasks s (task_id (heap s r)) = Some r" and can: "canStartTask s r"
    and cmd: "buildCommand (heap s r) (process_cwd e) = Inr (cmd, cwd)"
    and sp: "bun_spawn e cmd cwd = SpawnError (JsError m)"
  shows "snd (executeTask s r e now now') = Resolved"
    and "folderLocks (fst (executeTask s r e now now')) (folderPath (heap s r)) = None"
    and "f \<noteq> folderPath (heap s r) \<Longrightarrow>
           folderLocks (fst (executeTask s r e now now')) f = folderLocks s f"
    and "status (heap (fst (executeTask s r e now now')) r) = Error"
    and "terminalOutput (heap (fst (executeTask s r e now now')) r) =
           terminalOutput (heap s r) @ [''[error] '' @ m]"
    and "r' \<noteq> r \<Longrightarrow> heap (fst (executeTask s r e now now')) r' = heap s r'"
    and "tasks (fst (executeTask s r e now now')) = tasks s"
    and "taskOrder (fst (executeTask s r e now now')) = taskOrder s"
    and "awaiting (fst (executeTask s r e now now')) = awaiting s"
proof -
  have e: "executeTask s r e now now' =
      (executeTask_catch (started s r now) r (JsError m) now', Resolved)"
    using reg can cmd sp by (simp add: executeTask_cases buildCommand_started)
  have l: "folderLocks (started s r now) =
      (folderLocks s)(folderPath (heap s r) \<mapsto> task_id (heap s r))"
    using can by (simp add: started_fields acquireFolderLock_fields)
  show "snd (executeTask s r e now now') = Resolved" by (simp add: e)
  show "folderLocks (fst (executeTask s r e now now')) (folderPath (heap s r)) = None"
    using reg by (simp add: e executeTask_catch_fields started_fields(1-5,7) l)
  show "folderLocks (fst (executeTask s r e now now')) f = folderLocks s f"
    if "f \<noteq> folderPath (heap s r)"
    using reg that by (simp add: e executeTask_catch_fields started_fields(1-5,7) l)
  show "status (heap (fst (executeTask s r e now now')) r) = Error"
    using reg by (simp add: e executeTask_catch_heap started_fields Let_def)
  show "terminalOutput (heap (fst (executeTask s r e now now')) r) =
       terminalOutput (heap s r) @ [''[error] '' @ m]"
    using reg by (simp add: e executeTask_catch_heap started_fields Let_def)
  show "heap (fst (executeTask s r e now now')) r' = heap s r'" if "r' \<noteq> r"
    using reg that by (simp add: e executeTask_catch_heap started_fields Let_def)
  show "tasks (fst (executeTask s r e now now')) = tasks s"
    by (simp add: e executeTask_catch_fields started_fields)
  show "taskOrder (fst (executeTask s r e now now')) = taskOrder s"
    by (simp add: e executeTask_catch_fields started_fields)
  show "awaiting (fst (executeTask s r e now now')) = awaiting s"
    by (simp add: e executeTask_catch_fields started_fields)
qed

lemma executeTask_unknown_agent:
  assumes reg: "tasks s (task_id (heap s r)) = Some r" and can: "canStartTask s r"
    and ag: "agent (heap s r) \<noteq> ''claude''" "agent (heap s r) \<noteq> ''codex''"
  shows "snd (executeTask s r e now now') = Rejected (JsError (''Unknown agent: '' @ agent (heap s r)))"
    and "folderLocks (fst (executeTask s r e now now')) (folderPath (heap s r)) = Some (task_id (heap s r))"
    and "status (heap (fst (executeTask s r e now now')) r) = Running"
    and "terminalOutput (heap (fst (executeTask s r e now now')) r) = terminalOutput (heap s r)"
    and "awaiting (fst (executeTask s r e now now')) = awaiting s"
proof -
  have b: "buildCommand (heap s r) (process_cwd e) = Inl (JsError (''Unknown agent: '' @ agent (heap s r)))"
    using ag by (simp add: buildCommand_def)
  have e: "executeTask s r e now now' =
      (started s r now, Rejected (JsError (''Unknown agent: '' @ agent (heap s r))))"
    using reg can b by (simp add: executeTask_cases buildCommand_started)
  show "snd (executeTask s r e now now') = Rejected (JsError (''Unknown agent: '' @ agent (heap s r)))"
    by (simp add: e)
  show "folderLocks (fst (executeTask s r e now now')) (folderPath (heap s r)) = Some (task_id (heap s r))"
    using can by (simp add: e started_fields acquireFolderLock_fields)
  show "status (heap (fst (executeTask s r e now now')) r) = Running"
    using reg by (simp add: e started_fields)
  show "terminalOutput (heap (fst (executeTask s r e now now')) r) = terminalOutput (heap s r)"
    using reg by (simp add: e started_fields)
  show "awaiting (fst (executeTask s r e now now')) = awaiting s"
    by (simp add: e started_fields)
qed

lemma executeTask_exited_overwrites:
  assumes "tasks s (task_id (heap s r)) = Some r"
  shows "status (heap (executeTask_exited s r code now) r) = (if code = 0 then Completed else Error)"
    and "exitCode (heap (executeTask_exited s r code now) r) = Some code"
    and "completedAt (heap (executeTask_exited s r code now) r) = Some now"
  using assms by (simp_all add: executeTask_exited_fields)

section \<open>Stale release\<close>

text \<open>
  C8. A release by a task that does not hold the lock of its folder (no entry, or another
  holder) returns the state as it was; a release by the holder deletes exactly the entry of
  that folder and changes nothing else.
\<close>

theorem releaseFolderLock_stale_noop:
  "(folderLocks s (folderPath (heap s r)) \<noteq> Some (task_id (heap s r))
      \<longrightarrow> releaseFolderLock s r = s) \<and>
   (folderLocks s (folderPath (heap s r)) = Some (task_id (heap s r))
      \<longrightarrow> releaseFolderLock s r =
            s\<lparr>folderLocks := (folderLocks s)(folderPath (heap s r) := None)\<rparr>)"
  by (simp add: releaseFolderLock_def Let_def)

theorem releaseFolderLock_stale_noop_witness:
  "folderLocks s_created (folderPath (heap s_created 0)) \<noteq> Some (task_id (heap s_created 0)) \<and>
   releaseFolderLock s_created 0 = s_created \<and>
   folderLocks s_running (folderPath (heap s_running 0)) = Some (task_id (heap s_running 0)) \<and>
   releaseFolderLock s_running 0 = s_running\<lparr>folderLocks := (folderLocks s_running)(''/p'' := None)\<rparr>"
  using releaseFolderLock_stale_noop [of s_created 0] releaseFolderLock_stale_noop [of s_running 0]
  by (simp add: s_created_simps s_running_simps)

section \<open>Folder exclusivity\<close>

text \<open>
  C1. In every reachable state a folder has a lock entry iff some task of the registry with
  that folder path is running; the task named by an entry is a running task of that folder;
  and two running tasks of one folder are the same task. The reachable states are closed
  under createTask, the start of executeTask (lock, then running; its spawn failure path
  included), the exit of a process, stopTask, removeTask, reorderTask and output.
\<close>

theorem folder_exclusivity_invariant: "reachable s \<Longrightarrow> folder_exclusive s"
proof -
  assume "reachable s"
  then have "store_ok s" "locks_ok s" using reachable_inv by blast+
  then show ?thesis by (rule locks_ok_exclusive)
qed

theorem folder_exclusivity_invariant_witness:
  "reachable s_running \<and> folderLocks s_running ''/p'' = Some ''t1'' \<and>
   tasks s_running ''t1'' = Some 0 \<and> status (heap s_running 0) = Running \<and>
   folderPath (heap s_running 0) = ''/p'' \<and> folder_exclusive s_running"
  using folder_exclusivity_invariant [OF reachable_running]
  by (simp add: s_running_simps reachable_running)

section \<open>Cancelling a task that has no process\<close>

text \<open>
  C7. For a task id without an entry in the map of running processes, stopTask returns
  false and the state it returns is the state it was given: registry, order, lock table and
  every field of every task are unchanged.
\<close>

theorem stopTask_without_process_noop:
  "\<not> isTaskRunning s taskId \<Longrightarrow> stopTask s taskId now = (s, False)"
  by (simp add: isTaskRunning_def stopTask_def)

theorem stopTask_without_process_noop_witness:
  "\<not> isTaskRunning s_created ''t1'' \<and> stopTask s_created ''t1'' 30 = (s_created, False)"
proof -
  have h: "\<not> isTaskRunning s_created ''t1''"
    by (simp add: isTaskRunning_def s_created_simps)
  show ?thesis using h stopTask_without_process_noop [OF h, of 30] by simp
qed

section \<open>Removal does not stop the process\<close>

text \<open>
  C9. Removing a running task that has an entry in the map of running processes returns
  true, deletes the task from the registry, deletes the first occurrence of its id from the
  order, leaves no lock entry of its folder that names it, and leaves the map of running
  processes as it was: isTaskRunning still answers true for the removed id. In a reachable
  state the id is then absent from the order, and the task held the lock entry of its
  folder, which is gone.
\<close>

theorem removeTask_leaves_process:
  assumes "tasks s taskId = Some r" and "status (heap s r) = Running"
    and "runningProcesses s taskId \<noteq> None"
  shows "snd (removeTask s taskId) = True \<and>
         tasks (fst (removeTask s taskId)) taskId = None \<and>
         taskOrder (fst (removeTask s taskId)) = remove1 taskId (taskOrder s) \<and>
         folderLocks (fst (removeTask s taskId)) (folderPath (heap s r)) \<noteq> Some taskId \<and>
         runningProcesses (fst (removeTask s taskId)) = runningProcesses s \<and>
         isTaskRunning (fst (removeTask s taskId)) taskId \<and>
         (reachable s \<longrightarrow>
            taskId \<notin> set (taskOrder (fst (removeTask s taskId))) \<and>
            folderLocks s (folderPath (heap s r)) = Some taskId \<and>
            folderLocks (fst (removeTask s taskId)) (folderPath (heap s r)) = None)"
proof -
  have "snd (removeTask s taskId) = True"
    using assms(1) by (simp add: removeTask_def Let_def)
  moreover have "taskOrder (fst (removeTask s taskId)) = remove1 taskId (taskOrder s)"
    using assms(1) by (simp add: removeTask_order)
  moreover have "folderLocks (fst (removeTask s taskId)) (folderPath (heap s r)) \<noteq> Some taskId"
    using assms(1) by (simp add: removeTask_locks)
  moreover have "isTaskRunning (fst (removeTask s taskId)) taskId"
    using assms(3) by (simp add: isTaskRunning_def removeTask_fields)
  moreover have "taskId \<notin> set (taskOrder (fst (removeTask s taskId))) \<and>
      folderLocks s (folderPath (heap s r)) = Some taskId \<and>
      folderLocks (fst (removeTask s taskId)) (folderPath (heap s r)) = None"
    if re: "reachable s"
  proof -
    have inv: "locks_ok s" "order_ok s" using re reachable_inv by blast+
    have l: "folderLocks s (folderPath (heap s r)) = Some taskId"
      using inv(1) assms(1,2) unfolding locks_ok_def by blast
    have d: "distinct (taskOrder s)" using inv(2) by (simp add: order_ok_def)
    have "taskId \<notin> set (taskOrder (fst (removeTask s taskId)))"
      using assms(1) d by (simp add: removeTask_order)
    moreover have "folderLocks (fst (removeTask s taskId)) (folderPath (heap s r)) = None"
      using assms(1) l by (simp add: removeTask_locks)
    ultimately show ?thesis using l by simp
  qed
  ultimately show ?thesis by (simp add: removeTask_fields)
qed

theorem removeTask_leaves_process_witness:
  "reachable s_running \<and> tasks s_running ''t1'' = Some 0 \<and> status (heap s_running 0) = Running \<and>
   runningProcesses s_running ''t1'' \<noteq> None \<and>
   snd (removeTask s_running ''t1'') = True \<and>
   tasks (fst (removeTask s_running ''t1'')) ''t1'' = None \<and>
   taskOrder (fst (removeTask s_running ''t1'')) = [] \<and>
   ''t1'' \<notin> set (taskOrder (fst (removeTask s_running ''t1''))) \<and>
   folderLocks (fst (removeTask s_running ''t1'')) ''/p'' = None \<and>
   isTaskRunning (fst (removeTask s_running ''t1'')) ''t1''"
proof -
  have h: "tasks s_running ''t1'' = Some 0" "status (heap s_running 0) = Running"
    "runningProcesses s_running ''t1'' \<noteq> None"
    by (simp_all add: s_running_simps)
  show ?thesis
    using removeTask_leaves_process [OF h] h reachable_running
    by (simp add: s_running_simps)
qed

section \<open>Sentinel exit codes\<close>

text \<open>
  C10. The spawn failure path of executeTask (its catch block) records exit code -1 with
  status error; stopTask records exit code -9 with status error; a process exit records
  the exit code of the process, which is not negative. Both sentinels are negative and they
  differ, so each is told apart from the other and from every exit code of a process.
\<close>

theorem sentinel_exit_codes:
  "(tasks s (task_id (heap s r)) = Some r \<and> canStartTask s r \<and>
    buildCommand (heap s r) (process_cwd e) = Inr (cmd, cwd) \<and> bun_spawn e cmd cwd = SpawnError err
      \<longrightarrow> status (heap (fst (executeTask s r e now now')) r) = Error \<and>
          exitCode (heap (fst (executeTask s r e now now')) r) = Some (- 1)) \<and>
   (tasks s (task_id (heap s r)) = Some r
      \<longrightarrow> status (heap (executeTask_catch s r err now) r) = Error \<and>
          exitCode (heap (executeTask_catch s r err now) r) = Some (- 1)) \<and>
   (runningProcesses s taskId \<noteq> None \<and> tasks s taskId = Some r
      \<longrightarrow> status (heap (fst (stopTask s taskId now)) r) = Error \<and>
          exitCode (heap (fst (stopTask s taskId now)) r) = Some (- 9)) \<and>
   (tasks s (task_id (heap s r)) = Some r \<and> 0 \<le> code
      \<longrightarrow> exitCode (heap (executeTask_exited s r code now) r) = Some code \<and>
          code \<noteq> - 1 \<and> code \<noteq> - 9) \<and>
   (- 1 :: int) < 0 \<and> (- 9 :: int) < 0 \<and> (- 1 :: int) \<noteq> - 9"
proof -
  have a: "status (heap (executeTask_catch s' r err n) r) = Error \<and>
          exitCode (heap (executeTask_catch s' r err n) r) = Some (- 1)"
    if "tasks s' (task_id (heap s' r)) = Some r" for s' n
    using that by (simp add: executeTask_catch_heap Let_def)
  have b: "status (heap (fst (executeTask s r e now now')) r) = Error \<and>
          exitCode (heap (fst (executeTask s r e now now')) r) = Some (- 1)"
    if h: "tasks s (task_id (heap s r)) = Some r" "canStartTask s r"
      "buildCommand (heap s r) (process_cwd e) = Inr (cmd, cwd)" "bun_spawn e cmd cwd = SpawnError err"
  proof -
    have "tasks (started s r now) (task_id (heap (started s r now) r)) = Some r"
      using h(1) by (simp add: started_fields)
    from a [OF this] h show ?thesis
      by (simp add: executeTask_cases buildCommand_started)
  qed
  have c: "status (heap (fst (stopTask s taskId now)) r) = Error \<and>
          exitCode (heap (fst (stopTask s taskId now)) r) = Some (- 9)"
    if "runningProcesses s taskId \<noteq> None" "tasks s taskId = Some r"
    using that by (auto simp: stopTask_found)
  have d: "exitCode (heap (executeTask_exited s r code now) r) = Some code"
    if "tasks s (task_id (heap s r)) = Some r"
    using that by (simp add: executeTask_exited_fields)
  show ?thesis using a b c d by auto
qed

theorem sentinel_exit_codes_witness:
  "tasks s_created (task_id (heap s_created 0)) = Some 0 \<and> canStartTask s_created 0 \<and>
   buildCommand (heap s_created 0) (process_cwd env_fails) = Inr ([''claude'', ''-p'', ''fix the tests''], ''/p'') \<and>
   bun_spawn env_fails [''claude'', ''-p'', ''fix the tests''] ''/p''
     = SpawnError (JsError ''ENOENT: no such file or directory'') \<and>
   exitCode (heap (fst (executeTask s_created 0 env_fails 20 21)) 0) = Some (- 1) \<and>
   exitCode (heap (executeTask_catch s_created 0 (JsError ''ENOENT: no such file or directory'') 20) 0) = Some (- 1) \<and>
   runningProcesses s_running ''t1'' \<noteq> None \<and> tasks s_running ''t1'' = Some 0 \<and>
   exitCode (heap (fst (stopTask s_running ''t1'' 30)) 0) = Some (- 9) \<and>
   tasks s_running (task_id (heap s_running 0)) = Some 0 \<and> (0::int) \<le> 1 \<and>
   exitCode (heap (executeTask_exited s_running 0 1 30) 0) = Some 1"
  using sentinel_exit_codes [of s_created 0 env_fails "[''claude'', ''-p'', ''fix the tests'']" "''/p''"
      "JsError ''ENOENT: no such file or directory''" 20 21 "''zz''" 1]
    sentinel_exit_codes [of s_running 0 env_fails "[]" "[]" "JsError []" 30 30 "''t1''" 1 ]
  by (simp add: s_created_simps s_running_simps canStartTask_def buildCommand_def env_fails_def)

section \<open>An agent that buildCommand does not know\<close>

text \<open>
  C2. The specification has every failed execution end with the lock released, the task in
  status error and a diagnostic line in its log. For the unknown agent of \<open>t1\<close> the call of
  executeTask is rejected with the lock of \<^verbatim>\<open>/p\<close> held, the task running, no exit code and
  no line in the log, and no suspended call left to end it; \<open>t2\<close>, runnable before, is
  queued and no longer runnable.
\<close>

theorem executeTask_unknown_agent_keeps_lock:
  "tasks s_two ''t1'' = Some 0 \<and> agent (heap s_two 0) = ''gemini'' \<and>
   status (heap s_two 0) = Queued \<and> folderLocks s_two ''/p'' = None \<and>
   snd (executeTask s_two 0 env_spawns 20 21) = Rejected (JsError ''Unknown agent: gemini'') \<and>
   folderLocks (fst (executeTask s_two 0 env_spawns 20 21)) ''/p'' = Some ''t1'' \<and>
   status (heap (fst (executeTask s_two 0 env_spawns 20 21)) 0) = Running \<and>
   exitCode (heap (fst (executeTask s_two 0 env_spawns 20 21)) 0) = None \<and>
   terminalOutput (heap (fst (executeTask s_two 0 env_spawns 20 21)) 0) = [] \<and>
   awaiting (fst (executeTask s_two 0 env_spawns 20 21)) = [] \<and>
   getNextRunnableTasks s_two = [0] \<and>
   status (heap (fst (executeTask s_two 0 env_spawns 20 21)) 1) = Queued \<and>
   getNextRunnableTasks (fst (executeTask s_two 0 env_spawns 20 21)) = []"
  by (simp add: s_two_def createTask_def init_state_def normalizePath_def Let_def
      executeTask_def acquireFolderLock_def canStartTask_def updateTask_def buildCommand_def
      object_assign_def getNextRunnableTasks_def)

section \<open>Process exit after a stop\<close>

text \<open>
  C3. The specification has no transition out of a terminal state. After stopTask has set
  \<open>t1\<close> to status error with exit code -9 at time 30, the suspended call of executeTask is
  still there; when the killed process exits with 143 it stores exit code 143 and
  completion time 40 over the values of stopTask, and with exit code 0 it sets the status
  to completed.
\<close>

theorem completion_after_stop_overwrites:
  "reachable s_stopped \<and> 0 \<in> set (awaiting s_stopped) \<and>
   status (heap s_stopped 0) = Error \<and> exitCode (heap s_stopped 0) = Some (- 9) \<and>
   completedAt (heap s_stopped 0) = Some 30 \<and>
   exitCode (heap (executeTask_exited s_stopped 0 143 40) 0) = Some 143 \<and>
   completedAt (heap (executeTask_exited s_stopped 0 143 40) 0) = Some 40 \<and>
   status (heap (executeTask_exited s_stopped 0 0 40) 0) = Completed \<and>
   exitCode (heap (executeTask_exited s_stopped 0 0 40) 0) = Some 0"
proof -
  have "reachable s_stopped"
    unfolding s_stopped_def by (rule r_stop [OF reachable_running])
  then show ?thesis
    by (simp add: s_stopped_simps executeTask_exited_fields)
qed

section \<open>Reordering\<close>

text \<open>
  C6. For every order list: reorderTask with an id that is not in the list returns false
  and the state unchanged. For a task whose (first) position in the list is \<open>i\<close>: at
  position 0 with direction up, and at the last position with direction down, it returns
  false and the state unchanged; with a neighbour in the direction it returns true, the
  new order has the task and that neighbour exchanged and every other position as before,
  and nothing but the order changes.
\<close>

theorem reorderTask_behaviour:
  "(taskId \<notin> set (taskOrder s) \<longrightarrow> reorderTask s taskId dir = (s, False)) \<and>
   (i < length (taskOrder s) \<and> taskOrder s ! i = taskId \<and> taskId \<notin> set (take i (taskOrder s)) \<longrightarrow>
      (i = 0 \<longrightarrow> reorderTask s taskId Up = (s, False)) \<and>
      (i = length (taskOrder s) - 1 \<longrightarrow> reorderTask s taskId Down = (s, False)) \<and>
      (0 < i \<longrightarrow>
         snd (reorderTask s taskId Up) = True \<and>
         swapped (taskOrder s) i (i - 1) (taskOrder (fst (reorderTask s taskId Up))) \<and>
         fst (reorderTask s taskId Up) = s\<lparr>taskOrder := taskOrder (fst (reorderTask s taskId Up))\<rparr>) \<and>
      (i + 1 < length (taskOrder s) \<longrightarrow>
         snd (reorderTask s taskId Down) = True \<and>
         swapped (taskOrder s) i (i + 1) (taskOrder (fst (reorderTask s taskId Down))) \<and>
         fst (reorderTask s taskId Down) = s\<lparr>taskOrder := taskOrder (fst (reorderTask s taskId Down))\<rparr>))"
proof (intro conjI impI)
  assume "taskId \<notin> set (taskOrder s)"
  then show "reorderTask s taskId dir = (s, False)" by (rule reorderTask_absent)
next
  assume a: "i < length (taskOrder s) \<and> taskOrder s ! i = taskId \<and> taskId \<notin> set (take i (taskOrder s))"
    and "i = 0"
  then show "reorderTask s taskId Up = (s, False)"
    by (simp add: reorderTask_at [of i s taskId Up])
next
  assume a: "i < length (taskOrder s) \<and> taskOrder s ! i = taskId \<and> taskId \<notin> set (take i (taskOrder s))"
    and "i = length (taskOrder s) - 1"
  then show "reorderTask s taskId Down = (s, False)"
    by (simp add: reorderTask_at [of i s taskId Down] Let_def)
next
  assume a: "i < length (taskOrder s) \<and> taskOrder s ! i = taskId \<and> taskId \<notin> set (take i (taskOrder s))"
    and p: "0 < i"
  have n: "nat (int i - 1) = i - 1" by simp
  have e: "reorderTask s taskId Up =
      (s\<lparr>taskOrder := (taskOrder s)[i := taskOrder s ! (i - 1), i - 1 := taskOrder s ! i]\<rparr>, True)"
    using a p by (simp add: reorderTask_at [of i s taskId Up] Let_def n)
  show "snd (reorderTask s taskId Up) = True" by (simp add: e)
  show "swapped (taskOrder s) i (i - 1) (taskOrder (fst (reorderTask s taskId Up)))"
    using a p by (auto simp: e swapped_def nth_list_update)
  show "fst (reorderTask s taskId Up) = s\<lparr>taskOrder := taskOrder (fst (reorderTask s taskId Up))\<rparr>"
    by (simp add: e)
next
  assume a: "i < length (taskOrder s) \<and> taskOrder s ! i = taskId \<and> taskId \<notin> set (take i (taskOrder s))"
    and p: "i + 1 < length (taskOrder s)"
  have n: "nat (int i + 1) = i + 1" by simp
  have e: "reorderTask s taskId Down =
      (s\<lparr>taskOrder := (taskOrder s)[i := taskOrder s ! (i + 1), i + 1 := taskOrder s ! i]\<rparr>, True)"
    using a p by (simp add: reorderTask_at [of i s taskId Down] Let_def n del: of_nat_add of_nat_Suc)
  show "snd (reorderTask s taskId Down) = True" by (simp add: e)
  show "swapped (taskOrder s) i (i + 1) (taskOrder (fst (reorderTask s taskId Down)))"
    using a p by (auto simp: e swapped_def nth_list_update)
  show "fst (reorderTask s taskId Down) = s\<lparr>taskOrder := taskOrder (fst (reorderTask s taskId Down))\<rparr>"
    by (simp add: e)
qed

theorem reorderTask_behaviour_witness:
  "''zz'' \<notin> set (taskOrder s_three) \<and> reorderTask s_three ''zz'' Up = (s_three, False) \<and>
   reorderTask s_three ''a'' Up = (s_three, False) \<and>
   reorderTask s_three ''c'' Down = (s_three, False) \<and>
   snd (reorderTask s_three ''b'' Up) = True \<and>
   swapped [''a'', ''b'', ''c''] 1 0 (taskOrder (fst (reorderTask s_three ''b'' Up))) \<and>
   snd (reorderTask s_three ''b'' Down) = True \<and>
   swapped [''a'', ''b'', ''c''] 1 2 (taskOrder (fst (reorderTask s_three ''b'' Down)))"
  using reorderTask_behaviour [of "''zz''" s_three Up 0]
    reorderTask_behaviour [of "''a''" s_three Up 0]
    reorderTask_behaviour [of "''c''" s_three Up 2]
    reorderTask_behaviour [of "''b''" s_three Up 1]
  by (simp add: s_three_order numeral_2_eq_2)

section \<open>Scheduler pass\<close>

text \<open>
  C4, as amended. For every state of the registry and the lock table, getNextRunnableTasks
  returns the queued tasks that canStartTask lets through, in task order, without those
  that an earlier such task shares the folder with. The folders of the result are distinct,
  and the task returned for a folder is the earliest-ordered queued task of that folder
  that can start. Where no queued task is recorded as the holder of the lock of its own
  folder, as in every reachable state, it is the earliest-ordered queued task of the folder.
\<close>

theorem getNextRunnableTasks_selection:
  "getNextRunnableTasks s = first_per_folder s (startable s) \<and>
   distinct (map (\<lambda>r. folderPath (heap s r)) (getNextRunnableTasks s)) \<and>
   (\<forall>r \<in> set (getNextRunnableTasks s).
      earliest_startable s (folderPath (heap s r)) = Some r) \<and>
   (no_queued_holder s \<longrightarrow>
      (\<forall>r \<in> set (getNextRunnableTasks s).
         earliest_queued s (folderPath (heap s r)) = Some r)) \<and>
   (reachable s \<longrightarrow> no_queued_holder s)"
proof (intro conjI ballI impI)
  show "getNextRunnableTasks s = first_per_folder s (startable s)"
    by (simp add: getNextRunnableTasks_pick pick_first)
  show "distinct (map (\<lambda>r. folderPath (heap s r)) (getNextRunnableTasks s))"
    by (simp add: getNextRunnableTasks_pick pick_distinct)
  show "reachable s \<Longrightarrow> no_queued_holder s" by (rule reachable_no_queued_holder)
next
  fix r assume "r \<in> set (getNextRunnableTasks s)"
  then show "earliest_startable s (folderPath (heap s r)) = Some r"
    by (simp add: getNextRunnableTasks_pick earliest_startable_def pick_find)
next
  fix r assume nq: "no_queued_holder s" and m: "r \<in> set (getNextRunnableTasks s)"
  then have p: "r \<in> set (pick s (startable s) {})" by (simp add: getNextRunnableTasks_pick)
  then have st: "r \<in> set (startable s)" using pick_subset by blast
  have "find (\<lambda>r'. folderPath (heap s r') = folderPath (heap s r)) (startable s) =
        find (\<lambda>r'. folderPath (heap s r') = folderPath (heap s r)) (queued_refs s)"
    unfolding startable_def
    by (rule find_filter_same) (use startable_same_folder [OF nq st] in blast)
  with pick_find [OF p] show "earliest_queued s (folderPath (heap s r)) = Some r"
    by (simp add: earliest_queued_def)
qed

theorem getNextRunnableTasks_selection_witness:
  "reachable s_three \<and> no_queued_holder s_three \<and>
   getNextRunnableTasks s_three = [0, 2] \<and> startable s_three = [0, 1, 2] \<and>
   first_per_folder s_three [0, 1, 2] = [0, 2] \<and>
   earliest_startable s_three ''/p'' = Some 0 \<and> earliest_startable s_three ''/q'' = Some 2 \<and>
   earliest_queued s_three ''/p'' = Some 0 \<and> earliest_queued s_three ''/q'' = Some 2"
proof -
  have g: "getNextRunnableTasks s_three = [0, 2]"
    by (simp add: getNextRunnableTasks_def s_three_order s_three_simps canStartTask_def
        numeral_2_eq_2)
  have st: "startable s_three = [0, 1, 2]"
    by (simp add: startable_def queued_refs_def List.map_filter_simps s_three_order s_three_simps
        canStartTask_def numeral_2_eq_2)
  show ?thesis
    using getNextRunnableTasks_selection [of s_three] reachable_three g st
    by (simp add: s_three_simps numeral_2_eq_2)
qed

text \<open>
  C4, as stated, fails where a queued task is recorded as the holder of the lock of its
  folder: with the lock of \<^verbatim>\<open>/p\<close> naming the queued task \<open>b\<close>, the earlier queued task \<open>a\<close> of
  \<^verbatim>\<open>/p\<close> is skipped and \<open>b\<close> is returned for the folder.
\<close>

theorem getNextRunnableTasks_holder_counterexample:
  "taskOrder s_held = [''a'', ''b'', ''c''] \<and>
   tasks s_held ''a'' = Some 0 \<and> tasks s_held ''b'' = Some 1 \<and>
   status (heap s_held 0) = Queued \<and> status (heap s_held 1) = Queued \<and>
   folderPath (heap s_held 0) = ''/p'' \<and> folderPath (heap s_held 1) = ''/p'' \<and>
   folderLocks s_held ''/p'' = Some ''b'' \<and>
   getNextRunnableTasks s_held = [1, 2] \<and>
   earliest_queued s_held ''/p'' = Some 0 \<and>
   earliest_queued s_held (folderPath (heap s_held 1)) \<noteq> Some 1"
  by (simp add: getNextRunnableTasks_def earliest_queued_def queued_refs_def
      List.map_filter_simps s_held_simps s_three_order s_three_simps canStartTask_def
      numeral_2_eq_2)

section \<open>Output round trip\<close>

text \<open>
  C5. The specification has the lines appended for a stream be the lines of the text of
  its chunks, whatever the chunking. The two calls of readStream share one streaming
  decoder. With standard output delivering \<^verbatim>\<open>o\<close> and the first byte of an accented letter,
  then standard error delivering \<^verbatim>\<open>E\<close> and a line feed, then standard output delivering the
  second byte and a line feed, the log holds the tagged line U+FFFD \<^verbatim>\<open>E\<close> and the line \<^verbatim>\<open>o\<close>
  U+FFFD, where the lines of the two texts are \<^verbatim>\<open>o\<close> with the accented letter, and \<^verbatim>\<open>E\<close>.
  The same chunks of each stream, with the read of standard error answered after the two
  reads of standard output, give those two lines.
\<close>

theorem shared_decoder_breaks_round_trip:
  "terminalOutput (heap (readStreams s_running 0 reads_split) 0) =
     [''[stderr] '' @ replacement @ ''E'', ''o'' @ replacement] \<and>
   chunks_of Stdout reads_split = [[CHR ''o'', CHR 0xC3], [CHR 0xA9, CHR 0x0A]] \<and>
   chunks_of Stderr reads_split = [[CHR ''E'', CHR 0x0A]] \<and>
   spec_lines (text_of (chunks_of Stdout reads_split)) = [[CHR ''o'', CHR 0xC3, CHR 0xA9]] \<and>
   spec_lines (text_of (chunks_of Stderr reads_split)) = [''E''] \<and>
   chunks_of Stdout reads_unsplit = chunks_of Stdout reads_split \<and>
   chunks_of Stderr reads_unsplit = chunks_of Stderr reads_split \<and>
   terminalOutput (heap (readStreams s_running 0 reads_unsplit) 0) =
     [[CHR ''o'', CHR 0xC3, CHR 0xA9], ''[stderr] E'']"
  by (simp add: readStreams_def readStream_read_def reads_split_def reads_unsplit_def
      chunks_of_def text_of_def List.map_filter_simps spec_lines_def
      new_TextDecoder_def decode_byte_def lead_byte_def emit_def Let_def
      byte_order_mark_def replacement_def between_sequences_def
      buffer_of_def set_buffer_def prefix_of_def pop_or_empty_def pushOutput_def
      s_running_simps)

end
